theory Spec2Isabelle
  imports Main "HOL-Library.AList"
begin

section \<open>Circuit breaker (infrastructure/resilience/circuit-breaker.ts)\<close>

text \<open>
  The class \<open>CircuitBreaker\<close> keeps four mutable fields and a read-only options object.
  Times are the integer milliseconds \<open>Date.now()\<close> returns; the counters are JavaScript
  numbers that only ever hold integers. The wrapped function \<open>fn\<close> acts on the rest of
  the program, the world \<open>'w\<close>: it either throws (\<open>Inl\<close>) or returns (\<open>Inr\<close>) and
  leaves a new world. The clock is read from the world, so that the time at which a
  failure is recorded may be later than the time at which the call was let through.
  \<open>log.warn\<close> in \<open>transitionTo\<close> writes to the external logger and is left out.
\<close>

datatype CircuitState = CLOSED | OPEN | HALF_OPEN

record CircuitBreakerOptions =
  name :: string
  failureThreshold :: int
  resetTimeout :: int
  halfOpenRequests :: int

record CircuitBreaker =
  state :: CircuitState
  failures :: int
  successes :: int
  lastFailureTime :: int
  options :: CircuitBreakerOptions

text \<open>\<open>AppError\<close> of infrastructure/errors/error-codes.ts, with the codes it is built with here.\<close>

datatype ErrorCode = CIRCUIT_BREAKER_OPEN | INTERNAL_ERROR

record AppError =
  code :: ErrorCode
  message :: string
  statusCode :: int
  isTransient :: bool

definition circuitOpen :: "string \<Rightarrow> AppError" where
  "circuitOpen service =
     \<lparr>code = CIRCUIT_BREAKER_OPEN, message = ''Service unavailable: '' @ service,
      statusCode = 503, isTransient = True\<rparr>"

text \<open>What \<open>execute\<close> throws: its own circuit-open error, or the error of \<open>fn\<close> rethrown.\<close>

datatype 'e thrown = CircuitOpen AppError | Rethrown 'e


definition transitionTo :: "CircuitState \<Rightarrow> CircuitBreaker \<Rightarrow> CircuitBreaker" where
  "transitionTo newState cb =
     (let cb1 = cb\<lparr>state := newState\<rparr>
      in if newState = CLOSED then cb1\<lparr>failures := 0, successes := 0\<rparr>
         else if newState = HALF_OPEN then cb1\<lparr>successes := 0\<rparr>
         else cb1)"

definition onSuccess :: "CircuitBreaker \<Rightarrow> CircuitBreaker" where
  "onSuccess cb =
     (if state cb = HALF_OPEN then
        (let cb1 = cb\<lparr>successes := successes cb + 1\<rparr>
         in if successes cb1 \<ge> halfOpenRequests (options cb1)
            then transitionTo CLOSED cb1 else cb1)
      else cb\<lparr>failures := 0\<rparr>)"

definition onFailure :: "int \<Rightarrow> CircuitBreaker \<Rightarrow> CircuitBreaker" where
  "onFailure now cb =
     (let cb1 = cb\<lparr>failures := failures cb + 1, lastFailureTime := now\<rparr>
      in if state cb1 = HALF_OPEN then transitionTo OPEN cb1
         else if failures cb1 \<ge> failureThreshold (options cb1) then transitionTo OPEN cb1
         else cb1)"

text \<open>
  The first block of \<open>execute\<close>: an OPEN breaker either moves to HALF_OPEN, when
  \<open>resetTimeout\<close> milliseconds have passed since the last failure, or throws.
\<close>

definition gate :: "int \<Rightarrow> CircuitBreaker \<Rightarrow> AppError + CircuitBreaker" where
  "gate now cb =
     (if state cb = OPEN then
        (if now - lastFailureTime cb \<ge> resetTimeout (options cb)
         then Inr (transitionTo HALF_OPEN cb)
         else Inl (circuitOpen (name (options cb))))
      else Inr cb)"

definition execute ::
  "('w \<Rightarrow> int) \<Rightarrow> ('w \<Rightarrow> ('e + 'a) \<times> 'w) \<Rightarrow> CircuitBreaker \<times> 'w
     \<Rightarrow> ('e thrown + 'a) \<times> CircuitBreaker \<times> 'w" where
  "execute clock fn s =
     (case s of (cb, w) \<Rightarrow>
        (case gate (clock w) cb of
           Inl err \<Rightarrow> (Inl (CircuitOpen err), cb, w)
         | Inr cb1 \<Rightarrow>
             (case fn w of
                (Inr result, w') \<Rightarrow> (Inr result, onSuccess cb1, w')
              | (Inl error, w') \<Rightarrow> (Inl (Rethrown error), onFailure (clock w') cb1, w'))))"

text \<open>\<open>reset()\<close>, the forced reset for tests and administration.\<close>

definition reset :: "CircuitBreaker \<Rightarrow> CircuitBreaker" where
  "reset cb = transitionTo CLOSED cb"


text \<open>The pre-configured breakers at the end of the file.\<close>

definition breakers_database :: CircuitBreakerOptions where
  "breakers_database =
     \<lparr>name = ''database'', failureThreshold = 5, resetTimeout = 30000, halfOpenRequests = 3\<rparr>"


definition breakers_whatsapp :: CircuitBreakerOptions where
  "breakers_whatsapp =
     \<lparr>name = ''whatsapp'', failureThreshold = 5, resetTimeout = 60000, halfOpenRequests = 1\<rparr>"



section \<open>JavaScript helpers\<close>

text \<open>
  \<open>String(n)\<close> on an integer number: its decimal digits, with a minus sign when negative
  (\<open>digit_char\<close> is only applied to numbers below 16).
  \<open>Math.ceil(x / 1000)\<close> on an integer \<open>x\<close> is the quotient rounded up.
  JavaScript strings are modelled as HOL strings.
\<close>

definition digit_char :: "nat \<Rightarrow> char" where
  "digit_char n = ''0123456789abcdef'' ! n"

fun String_nat :: "nat \<Rightarrow> string" where
  "String_nat n = (if n < 10 then [digit_char n] else String_nat (n div 10) @ [digit_char (n mod 10)])"

declare String_nat.simps [simp del]

definition JS_String :: "int \<Rightarrow> string" where
  "JS_String i = (if i < 0 then CHR ''-'' # String_nat (nat (- i)) else String_nat (nat i))"

definition ceil_div :: "int \<Rightarrow> int \<Rightarrow> int" where
  "ceil_div x d = - ((- x) div d)"

text \<open>
  \<open>JSON.stringify\<close> on the values the adapters serialise: strings, numbers, booleans and
  objects of them. A string is quoted; the quote, the backslash and the control
  characters below U+0020 are escaped, every other character is copied.
\<close>

datatype json = JString string | JNumber int | JBool bool | JObject "(string \<times> json) list"

definition escape_char :: "char \<Rightarrow> string" where
  "escape_char c =
     (if c = CHR 0x22 then [CHR 0x5C, CHR 0x22]
      else if c = CHR 0x5C then [CHR 0x5C, CHR 0x5C]
      else if c = CHR 0x08 then [CHR 0x5C, CHR ''b'']
      else if c = CHR 0x0C then [CHR 0x5C, CHR ''f'']
      else if c = CHR 0x0A then [CHR 0x5C, CHR ''n'']
      else if c = CHR 0x0D then [CHR 0x5C, CHR ''r'']
      else if c = CHR 0x09 then [CHR 0x5C, CHR ''t'']
      else if (of_char c :: nat) < 32
        then [CHR 0x5C, CHR ''u'', CHR ''0'', CHR ''0'',
              digit_char ((of_char c :: nat) div 16), digit_char ((of_char c :: nat) mod 16)]
      else [c])"

definition quote :: "string \<Rightarrow> string" where
  "quote s = [CHR 0x22] @ concat (map escape_char s) @ [CHR 0x22]"

fun JSON_stringify :: "json \<Rightarrow> string"
  and stringify_members :: "(string \<times> json) list \<Rightarrow> string" where
  "JSON_stringify (JString s) = quote s"
| "JSON_stringify (JNumber n) = JS_String n"
| "JSON_stringify (JBool b) = (if b then ''true'' else ''false'')"
| "JSON_stringify (JObject ms) = ''{'' @ stringify_members ms @ ''}''"
| "stringify_members [] = []"
| "stringify_members [(k, v)] = quote k @ '':'' @ JSON_stringify v"
| "stringify_members ((k, v) # m # ms) =
     quote k @ '':'' @ JSON_stringify v @ '','' @ stringify_members (m # ms)"

section \<open>MCP test client (tests/utils/mcp-test-client.ts)\<close>

text \<open>
  \<open>McpTestClient\<close> holds a \<open>Map\<close> from tool names to handlers and the call history. A
  handler is an asynchronous function of the arguments; it acts on the world \<open>'w\<close> and
  either throws an \<open>Error\<close> (\<open>Inl\<close>) or returns a result. The \<open>Map\<close> keeps insertion
  order, which \<open>getRegisteredTools\<close> shows, so it is an association list.
\<close>

record ContentItem =
  c_type :: string
  c_text :: string

record ToolCallResult =
  content :: "ContentItem list"
  isError :: "bool option"

record Error =
  err_message :: string
  err_stack :: string

type_synonym ('a, 'w) tool_handler = "'a \<Rightarrow> 'w \<Rightarrow> (Error + ToolCallResult) \<times> 'w"

record ('a, 'w) McpTestClient =
  toolHandlers :: "(string \<times> ('a, 'w) tool_handler) list"
  callHistory :: "(string \<times> 'a \<times> ToolCallResult) list"

definition new_McpTestClient :: "('a, 'w) McpTestClient" where
  "new_McpTestClient = \<lparr>toolHandlers = [], callHistory = []\<rparr>"

definition registerTool ::
  "string \<Rightarrow> ('a, 'w) tool_handler \<Rightarrow> ('a, 'w) McpTestClient \<Rightarrow> ('a, 'w) McpTestClient" where
  "registerTool nm handler c = c\<lparr>toolHandlers := AList.update nm handler (toolHandlers c)\<rparr>"

definition tool_not_found :: ToolCallResult where
  "tool_not_found =
     \<lparr>content = [\<lparr>c_type = ''text'',
                   c_text = JSON_stringify (JObject [(''error'', JString ''Tool not found''),
                                                     (''code'', JString ''TOOL_NOT_FOUND'')])\<rparr>],
      isError = Some True\<rparr>"

definition internal_error :: "Error \<Rightarrow> ToolCallResult" where
  "internal_error err =
     \<lparr>content = [\<lparr>c_type = ''text'',
                   c_text = JSON_stringify (JObject [(''error'', JString (err_message err)),
                                                     (''code'', JString ''INTERNAL_ERROR'')])\<rparr>],
      isError = Some True\<rparr>"

definition callTool ::
  "string \<Rightarrow> 'a \<Rightarrow> ('a, 'w) McpTestClient \<times> 'w \<Rightarrow> ToolCallResult \<times> ('a, 'w) McpTestClient \<times> 'w" where
  "callTool nm args s =
     (case s of (c, w) \<Rightarrow>
        (case map_of (toolHandlers c) nm of
           None \<Rightarrow>
             (let result = tool_not_found
              in (result, c\<lparr>callHistory := callHistory c @ [(nm, args, result)]\<rparr>, w))
         | Some handler \<Rightarrow>
             (case handler args w of
                (Inr result, w') \<Rightarrow>
                  (result, c\<lparr>callHistory := callHistory c @ [(nm, args, result)]\<rparr>, w')
              | (Inl err, w') \<Rightarrow>
                  (let result = internal_error err
                   in (result, c\<lparr>callHistory := callHistory c @ [(nm, args, result)]\<rparr>, w')))))"






text \<open>The error codes of the stable taxonomy, the enum \<open>ErrorCode\<close> of error-codes.ts.\<close>

definition ErrorCode_values :: "string list" where
  "ErrorCode_values =
     [''CORE_SESSION_DOWN'', ''CORE_SESSION_NOT_FOUND'', ''CORE_NOT_CONNECTED'',
      ''MCP_TOOL_DENIED'', ''MCP_TOOL_NOT_FOUND'', ''RATE_LIMIT_EXCEEDED'',
      ''VALIDATION_ERROR'', ''INVALID_PARAMETER'', ''CIRCUIT_BREAKER_OPEN'',
      ''SERVICE_UNAVAILABLE'', ''INTERNAL_TRANSIENT_ERROR'', ''INTERNAL_ERROR'',
      ''UNAUTHORIZED'', ''FORBIDDEN'', ''NOT_FOUND'', ''CONFLICT'']"

section \<open>The tool send_text_message (adapters/mcp/index.ts)\<close>

text \<open>
  The handler registered on the MCP server. \<open>sessionManager.getSession\<close> and the session's
  messaging service are collaborators: the first is a lookup, the second acts on the
  world and may throw.
\<close>

record MessageResult =
  messageId :: string
  timestamp :: int

record 'w Session =
  isConnected :: bool
  sendText :: "string \<Rightarrow> string \<Rightarrow> 'w \<Rightarrow> (Error + MessageResult) \<times> 'w"

record SendTextArgs =
  sessionId :: string
  to :: string
  text_arg :: string

definition error_result :: "string \<Rightarrow> string \<Rightarrow> ToolCallResult" where
  "error_result msg cd =
     \<lparr>content = [\<lparr>c_type = ''text'',
                   c_text = JSON_stringify (JObject [(''error'', JString msg), (''code'', JString cd)])\<rparr>],
      isError = Some True\<rparr>"

definition send_text_message ::
  "(string \<Rightarrow> 'w Session option) \<Rightarrow> SendTextArgs \<Rightarrow> 'w \<Rightarrow> ToolCallResult \<times> 'w" where
  "send_text_message getSession args w =
     (case getSession (sessionId args) of
        None \<Rightarrow> (error_result ''Session not found'' ''SESSION_NOT_FOUND'', w)
      | Some session \<Rightarrow>
          if \<not> isConnected session
          then (error_result ''Session not connected'' ''SESSION_NOT_CONNECTED'', w)
          else (case sendText session (to args) (text_arg args) w of
                  (Inr result, w') \<Rightarrow>
                    (\<lparr>content = [\<lparr>c_type = ''text'',
                                   c_text = JSON_stringify (JObject
                                     [(''success'', JBool True),
                                      (''messageId'', JString (messageId result)),
                                      (''to'', JString (to args)),
                                      (''timestamp'', JNumber (timestamp result))])\<rparr>],
                      isError = None\<rparr>, w')
                | (Inl err, w') \<Rightarrow> (error_result (err_message err) ''SEND_FAILED'', w')))"

section \<open>Rate limiter (the rate-limiting middleware of the REST adapter)\<close>

text \<open>
  The store is a module-level \<open>Map\<close> from caller identifiers to entries; the middleware
  mutates the entry it finds or creates. \<open>Date.now()\<close> is read once per request and is the
  argument \<open>now\<close>. Of the request context only the authenticated key and the
  \<open>x-forwarded-for\<close> header are read. The logger calls are left out.
\<close>

record RateLimitEntry =
  count :: int
  resetAt :: int
  burstCount :: int
  lastBurstReset :: int

record RateLimitConfig =
  windowMs :: int
  limit :: int
  burstLimit :: int
  burstWindowMs :: int

definition RateLimits_REST :: RateLimitConfig where
  "RateLimits_REST = \<lparr>windowMs = 60000, limit = 100, burstLimit = 10, burstWindowMs = 1000\<rparr>"

definition RateLimits_MCP :: RateLimitConfig where
  "RateLimits_MCP = \<lparr>windowMs = 60000, limit = 30, burstLimit = 5, burstWindowMs = 1000\<rparr>"

record RateLimiterOptions =
  opt_windowMs :: "int option"
  opt_defaultLimit :: "int option"
  opt_config :: "RateLimitConfig option"

record ApiKeyInfo =
  key_id :: string
  rateLimit :: "int option"

record Context =
  apiKey :: "ApiKeyInfo option"
  x_forwarded_for :: "string option"

text \<open>
  The body \<open>errorResponse\<close> builds, without its time stamp. The code is a property read
  on the object \<open>ErrorCodes\<close> of the module \<open>./types\<close>, which declares six members;
  a read of any other member yields \<open>undefined\<close>, and then the body carries no code
  (\<open>None\<close>).
\<close>

record ApiResponse =
  success :: bool
  error_code :: "string option"
  error_message :: string

definition ErrorCodes :: "(string \<times> string) list" where
  "ErrorCodes =
     [(''VALIDATION_ERROR'', ''VALIDATION_ERROR''), (''NOT_FOUND'', ''NOT_FOUND''),
      (''SESSION_NOT_FOUND'', ''SESSION_NOT_FOUND''),
      (''SESSION_NOT_CONNECTED'', ''SESSION_NOT_CONNECTED''),
      (''SOCKET_ERROR'', ''SOCKET_ERROR''), (''INTERNAL_ERROR'', ''INTERNAL_ERROR'')]"

definition errorResponse :: "string option \<Rightarrow> string \<Rightarrow> ApiResponse" where
  "errorResponse cd msg = \<lparr>success = False, error_code = cd, error_message = msg\<rparr>"

text \<open>The middleware returns \<open>next()\<close> or a JSON response with a status.\<close>

datatype Response = Next | Json ApiResponse int

type_synonym RateLimitStore = "string \<Rightarrow> RateLimitEntry option"

definition the_config :: "RateLimiterOptions \<Rightarrow> RateLimitConfig" where
  "the_config opts = (case opt_config opts of Some c \<Rightarrow> c | None \<Rightarrow> RateLimits_REST)"

definition the_windowMs :: "RateLimiterOptions \<Rightarrow> int" where
  "the_windowMs opts = (case opt_windowMs opts of Some w \<Rightarrow> w | None \<Rightarrow> windowMs (the_config opts))"

definition the_defaultLimit :: "RateLimiterOptions \<Rightarrow> int" where
  "the_defaultLimit opts = (case opt_defaultLimit opts of Some l \<Rightarrow> l | None \<Rightarrow> limit (the_config opts))"

definition identifier_of :: "Context \<Rightarrow> string" where
  "identifier_of c =
     (case apiKey c of
        Some keyInfo \<Rightarrow> key_id keyInfo
      | None \<Rightarrow> (case x_forwarded_for c of Some ip \<Rightarrow> ip | None \<Rightarrow> ''anonymous''))"

definition limit_of :: "RateLimiterOptions \<Rightarrow> Context \<Rightarrow> int" where
  "limit_of opts c =
     (case apiKey c of
        Some keyInfo \<Rightarrow> (case rateLimit keyInfo of Some l \<Rightarrow> l | None \<Rightarrow> the_defaultLimit opts)
      | None \<Rightarrow> the_defaultLimit opts)"

text \<open>The entry the request works on: the stored one, or a new one when none is stored or
  the stored one's window has passed.\<close>

definition window_entry :: "int \<Rightarrow> int \<Rightarrow> RateLimitEntry option \<Rightarrow> RateLimitEntry" where
  "window_entry wMs now stored =
     (case stored of
        None \<Rightarrow> \<lparr>count = 0, resetAt = now + wMs, burstCount = 0, lastBurstReset = now\<rparr>
      | Some entry \<Rightarrow>
          if resetAt entry < now
          then \<lparr>count = 0, resetAt = now + wMs, burstCount = 0, lastBurstReset = now\<rparr>
          else entry)"

text \<open>"Reset burst counter if window passed".\<close>

definition burst_entry :: "RateLimitConfig \<Rightarrow> int \<Rightarrow> RateLimitEntry \<Rightarrow> RateLimitEntry" where
  "burst_entry config now entry =
     (if now - lastBurstReset entry \<ge> burstWindowMs config
      then entry\<lparr>burstCount := 0, lastBurstReset := now\<rparr>
      else entry)"

definition counted_entry :: "RateLimiterOptions \<Rightarrow> int \<Rightarrow> RateLimitEntry option \<Rightarrow> RateLimitEntry" where
  "counted_entry opts now stored =
     (let entry = burst_entry (the_config opts) now (window_entry (the_windowMs opts) now stored)
      in entry\<lparr>count := count entry + 1, burstCount := burstCount entry + 1\<rparr>)"

definition rateLimiter ::
  "RateLimiterOptions \<Rightarrow> int \<Rightarrow> Context \<Rightarrow> RateLimitStore
     \<Rightarrow> ((string \<times> string) list \<times> Response) \<times> RateLimitStore" where
  "rateLimiter opts now c store =
     (let config = the_config opts;
          identifier = identifier_of c;
          lim = limit_of opts c;
          entry = counted_entry opts now (store identifier);
          store' = store(identifier \<mapsto> entry);
          headers =
            [(''X-RateLimit-Limit'', JS_String lim),
             (''X-RateLimit-Remaining'', JS_String (max 0 (lim - count entry))),
             (''X-RateLimit-Reset'', JS_String (ceil_div (resetAt entry) 1000)),
             (''X-RateLimit-Burst-Limit'', JS_String (burstLimit config)),
             (''X-RateLimit-Burst-Remaining'', JS_String (max 0 (burstLimit config - burstCount entry)))]
      in if burstCount entry > burstLimit config then
           ((headers @ [(''Retry-After'', ''1'')],
             Json (errorResponse (map_of ErrorCodes ''RATE_LIMITED'') ''Too many requests. Slow down.'') 429),
            store')
         else if count entry > lim then
           ((headers @ [(''Retry-After'', JS_String (ceil_div (resetAt entry - now) 1000))],
             Json (errorResponse (map_of ErrorCodes ''RATE_LIMITED'')
                     ''Rate limit exceeded. Please try again later.'') 429),
            store')
         else ((headers, Next), store'))"

definition mcpRateLimiter ::
  "int \<Rightarrow> Context \<Rightarrow> RateLimitStore \<Rightarrow> ((string \<times> string) list \<times> Response) \<times> RateLimitStore" where
  "mcpRateLimiter =
     rateLimiter \<lparr>opt_windowMs = None, opt_defaultLimit = None, opt_config = Some RateLimits_MCP\<rparr>"

text \<open>The periodic cleanup: every entry whose window has passed is deleted.\<close>

definition cleanup :: "int \<Rightarrow> RateLimitStore \<Rightarrow> RateLimitStore" where
  "cleanup now store =
     (\<lambda>k. case store k of None \<Rightarrow> None | Some entry \<Rightarrow> if resetAt entry < now then None else Some entry)"

text \<open>The same caller sending one request at each of the given times, in order: the
  responses, and the store afterwards.\<close>

fun requests ::
  "RateLimiterOptions \<Rightarrow> Context \<Rightarrow> int list \<Rightarrow> RateLimitStore
     \<Rightarrow> ((string \<times> string) list \<times> Response) list \<times> RateLimitStore" where
  "requests opts c [] store = ([], store)"
| "requests opts c (now # nows) store =
     (case rateLimiter opts now c store of
        (r, store') \<Rightarrow> (case requests opts c nows store' of (rs, store'') \<Rightarrow> (r # rs, store'')))"

text \<open>The entry the last of the requests \<open>t0 # rest\<close> is counted on.\<close>

definition last_entry ::
  "RateLimiterOptions \<Rightarrow> Context \<Rightarrow> int \<Rightarrow> int list \<Rightarrow> RateLimitStore \<Rightarrow> RateLimitEntry" where
  "last_entry opts c t0 rest store =
     counted_entry opts (last (t0 # rest))
       (snd (requests opts c (butlast (t0 # rest)) store) (identifier_of c))"

text \<open>A request is rejected when the response is a JSON body with status 429.\<close>

definition rejected :: "(string \<times> string) list \<times> Response \<Rightarrow> bool" where
  "rejected r = (case snd r of Next \<Rightarrow> False | Json body st \<Rightarrow> st = 429)"

definition retry_after :: "(string \<times> string) list \<times> Response \<Rightarrow> string option" where
  "retry_after r = map_of (fst r) ''Retry-After''"

definition anonymous :: Context where
  "anonymous = \<lparr>apiKey = None, x_forwarded_for = None\<rparr>"

definition no_options :: RateLimiterOptions where
  "no_options = \<lparr>opt_windowMs = None, opt_defaultLimit = None, opt_config = None\<rparr>"

section \<open>In-memory job queue (infrastructure/queue/memory-queue.ts)\<close>

text \<open>
  \<open>MemoryQueue\<close> keeps two \<open>Map\<close>s from job ids to job objects, the active jobs and the
  dead-letter queue, and the \<open>Set\<close> of the ids being processed. A \<open>Map\<close> iterates in
  insertion order and \<open>set\<close> on a present key keeps the key's place, so each map is an
  association list: \<open>AList.update\<close> is \<open>set\<close>, \<open>AList.delete\<close> is \<open>delete\<close>,
  \<open>map_of\<close> is \<open>get\<close>. A job object sits in a map under its own id, and the code
  changes it through a reference: \<open>AList.map_entry\<close> on the id changes the object where
  the map holds it and nothing where the map does not.

  Times are integer milliseconds. The handler acts on the world \<open>'w\<close> and either throws
  (\<open>Inl\<close> of the error's message) or returns a result. The worker timer of
  \<open>start\<close>/\<open>stop\<close>, the logger and the events on the bus are left out; the retry delay
  the code computes is only logged.
\<close>

datatype JobStatus = Pending | Processing | Completed | Failed | Dead

datatype JobPriority = Low | Normal | High | Critical

record ('d, 'r) QueueJob =
  job_id :: string
  job_type :: string
  job_data :: 'd
  priority :: JobPriority
  status :: JobStatus
  attempts :: int
  maxAttempts :: int
  createdAt :: int
  processedAt :: "int option"
  completedAt :: "int option"
  job_error :: "string option"
  job_result :: "'r option"

record QueueStats =
  stat_pending :: nat
  stat_processing :: nat
  stat_completed :: nat
  stat_failed :: nat
  stat_dead :: nat

fun PRIORITY_WEIGHTS :: "JobPriority \<Rightarrow> int" where
  "PRIORITY_WEIGHTS Critical = 4"
| "PRIORITY_WEIGHTS High = 3"
| "PRIORITY_WEIGHTS Normal = 2"
| "PRIORITY_WEIGHTS Low = 1"

record QueueOptions =
  q_maxAttempts :: int
  q_retryDelayMs :: int
  q_concurrency :: int
  q_pollIntervalMs :: int

record ('d, 'r) MemoryQueue =
  queue_name :: string
  queue_options :: QueueOptions
  jobs :: "(string \<times> ('d, 'r) QueueJob) list"
  deadLetterQueue :: "(string \<times> ('d, 'r) QueueJob) list"
  processing :: "string list"

text \<open>The constructor fills in the defaults of the options that are not given.\<close>

definition new_MemoryQueue ::
  "string \<Rightarrow> int option \<Rightarrow> int option \<Rightarrow> int option \<Rightarrow> int option \<Rightarrow> ('d, 'r) MemoryQueue" where
  "new_MemoryQueue nm maxAtt retryDelay conc pollInterval =
     \<lparr>queue_name = nm,
      queue_options =
        \<lparr>q_maxAttempts = (case maxAtt of Some n \<Rightarrow> n | None \<Rightarrow> 3),
         q_retryDelayMs = (case retryDelay of Some n \<Rightarrow> n | None \<Rightarrow> 1000),
         q_concurrency = (case conc of Some n \<Rightarrow> n | None \<Rightarrow> 5),
         q_pollIntervalMs = (case pollInterval of Some n \<Rightarrow> n | None \<Rightarrow> 100)\<rparr>,
      jobs = [], deadLetterQueue = [], processing = []\<rparr>"

text \<open>\<open>add\<close>: \<open>uuid\<close> is what \<open>crypto.randomUUID()\<close> returns and \<open>now\<close> the current time.\<close>

definition add ::
  "string \<Rightarrow> int \<Rightarrow> string \<Rightarrow> 'd \<Rightarrow> JobPriority option \<Rightarrow> int option \<Rightarrow> ('d, 'r) MemoryQueue
     \<Rightarrow> string \<times> ('d, 'r) MemoryQueue" where
  "add uuid now ty dat prio maxAtt q =
     (let job = \<lparr>job_id = uuid, job_type = ty, job_data = dat,
                 priority = (case prio of Some p \<Rightarrow> p | None \<Rightarrow> Normal),
                 status = Pending, attempts = 0,
                 maxAttempts = (case maxAtt of Some n \<Rightarrow> n | None \<Rightarrow> q_maxAttempts (queue_options q)),
                 createdAt = now, processedAt = None, completedAt = None,
                 job_error = None, job_result = None\<rparr>
      in (uuid, q\<lparr>jobs := AList.update uuid job (jobs q)\<rparr>))"

text \<open>
  The pending jobs, sorted by the comparator
  \<open>PRIORITY_WEIGHTS[b.priority] - PRIORITY_WEIGHTS[a.priority]\<close>: by descending weight.
  \<open>Array.prototype.sort\<close> is stable, as \<open>sort_key\<close> is.
\<close>

definition pendingJobs :: "('d, 'r) MemoryQueue \<Rightarrow> ('d, 'r) QueueJob list" where
  "pendingJobs q =
     sort_key (\<lambda>j. - PRIORITY_WEIGHTS (priority j))
       (filter (\<lambda>j. status j = Pending) (map snd (jobs q)))"

text \<open>
  \<open>processNext\<close> up to the \<open>await\<close>: the concurrency check, the choice of the job and its
  marking. The result is the job handed to the handler, if any.
\<close>

definition processNext_select ::
  "int \<Rightarrow> ('d, 'r) MemoryQueue \<Rightarrow> ('d, 'r) QueueJob option \<times> ('d, 'r) MemoryQueue" where
  "processNext_select now q =
     (if int (length (processing q)) \<ge> q_concurrency (queue_options q) then (None, q)
      else (case pendingJobs q of
              [] \<Rightarrow> (None, q)
            | job # _ \<Rightarrow>
                (let job1 = job\<lparr>status := Processing, processedAt := Some now,
                                attempts := attempts job + 1\<rparr>
                 in (Some job1,
                     q\<lparr>jobs := AList.map_entry (job_id job) (\<lambda>_. job1) (jobs q),
                       processing := List.insert (job_id job) (processing q)\<rparr>))))"

text \<open>
  \<open>processNext\<close> after the \<open>await\<close>: \<open>job\<close> is the local variable, the job as it was
  marked; \<open>outcome\<close> is what the handler did.
\<close>

definition processNext_settle ::
  "int \<Rightarrow> ('d, 'r) QueueJob \<Rightarrow> string + 'r \<Rightarrow> ('d, 'r) MemoryQueue \<Rightarrow> ('d, 'r) MemoryQueue" where
  "processNext_settle now job outcome q =
     (let q1 =
        (case outcome of
           Inr result \<Rightarrow>
             (let job1 = job\<lparr>status := Completed, completedAt := Some now,
                             job_result := Some result\<rparr>
              in q\<lparr>jobs := AList.map_entry (job_id job) (\<lambda>_. job1) (jobs q)\<rparr>)
         | Inl msg \<Rightarrow>
             (let job1 = job\<lparr>job_error := Some msg\<rparr>
              in if attempts job1 \<ge> maxAttempts job1 then
                   (let job2 = job1\<lparr>status := Dead\<rparr>
                    in q\<lparr>deadLetterQueue := AList.update (job_id job) job2 (deadLetterQueue q),
                          jobs := AList.delete (job_id job) (jobs q)\<rparr>)
                 else
                   (let job2 = job1\<lparr>status := Pending\<rparr>
                    in q\<lparr>jobs := AList.map_entry (job_id job) (\<lambda>_. job2) (jobs q)\<rparr>)))
      in q1\<lparr>processing := removeAll (job_id job) (processing q1)\<rparr>)"

text \<open>A whole call of \<open>processNext\<close> with nothing else running in between.\<close>

definition processNext ::
  "('w \<Rightarrow> int) \<Rightarrow> (('d, 'r) QueueJob \<Rightarrow> 'w \<Rightarrow> (string + 'r) \<times> 'w)
     \<Rightarrow> ('d, 'r) MemoryQueue \<times> 'w \<Rightarrow> ('d, 'r) MemoryQueue \<times> 'w" where
  "processNext clock handler s =
     (case s of (q, w) \<Rightarrow>
        (case processNext_select (clock w) q of
           (None, q1) \<Rightarrow> (q1, w)
         | (Some job, q1) \<Rightarrow>
             (case handler job w of
                (outcome, w') \<Rightarrow> (processNext_settle (clock w') job outcome q1, w'))))"

definition getStats :: "('d, 'r) MemoryQueue \<Rightarrow> QueueStats" where
  "getStats q =
     \<lparr>stat_pending = length (filter (\<lambda>j. status j = Pending) (map snd (jobs q))),
      stat_processing = length (filter (\<lambda>j. status j = Processing) (map snd (jobs q))),
      stat_completed = length (filter (\<lambda>j. status j = Completed) (map snd (jobs q))),
      stat_failed = length (filter (\<lambda>j. status j = Failed) (map snd (jobs q))),
      stat_dead = length (deadLetterQueue q)\<rparr>"

definition getJob :: "string \<Rightarrow> ('d, 'r) MemoryQueue \<Rightarrow> ('d, 'r) QueueJob option" where
  "getJob i q =
     (case map_of (jobs q) i of Some job \<Rightarrow> Some job | None \<Rightarrow> map_of (deadLetterQueue q) i)"

definition getDeadLetterJobs :: "('d, 'r) MemoryQueue \<Rightarrow> ('d, 'r) QueueJob list" where
  "getDeadLetterJobs q = map snd (deadLetterQueue q)"

definition retryDeadLetter :: "string \<Rightarrow> ('d, 'r) MemoryQueue \<Rightarrow> bool \<times> ('d, 'r) MemoryQueue" where
  "retryDeadLetter jobId q =
     (case map_of (deadLetterQueue q) jobId of
        None \<Rightarrow> (False, q)
      | Some job \<Rightarrow>
          (let job1 = job\<lparr>status := Pending, attempts := 0, job_error := None\<rparr>
           in (True, q\<lparr>jobs := AList.update jobId job1 (jobs q),
                       deadLetterQueue := AList.delete jobId (deadLetterQueue q)\<rparr>)))"

definition clearCompleted :: "('d, 'r) MemoryQueue \<Rightarrow> nat \<times> ('d, 'r) MemoryQueue" where
  "clearCompleted q =
     (length (filter (\<lambda>(i, job). status job = Completed) (jobs q)),
      q\<lparr>jobs := filter (\<lambda>(i, job). status job \<noteq> Completed) (jobs q)\<rparr>)"

text \<open>\<open>n\<close> calls of \<open>processNext\<close>, one after the other.\<close>

fun processNext_times ::
  "nat \<Rightarrow> ('w \<Rightarrow> int) \<Rightarrow> (('d, 'r) QueueJob \<Rightarrow> 'w \<Rightarrow> (string + 'r) \<times> 'w)
     \<Rightarrow> ('d, 'r) MemoryQueue \<times> 'w \<Rightarrow> ('d, 'r) MemoryQueue \<times> 'w" where
  "processNext_times 0 clock handler s = s"
| "processNext_times (Suc n) clock handler s =
     processNext_times n clock handler (processNext clock handler s)"

text \<open>
  A handler wrapped so that every invocation is written down: the world carries the list
  of the jobs the handler was invoked with, oldest first.
\<close>

definition logged ::
  "(('d, 'r) QueueJob \<Rightarrow> 'w \<Rightarrow> (string + 'r) \<times> 'w)
     \<Rightarrow> ('d, 'r) QueueJob \<Rightarrow> 'w \<times> ('d, 'r) QueueJob list
     \<Rightarrow> (string + 'r) \<times> 'w \<times> ('d, 'r) QueueJob list" where
  "logged handler job s =
     (case s of (w, log) \<Rightarrow> (case handler job w of (outcome, w') \<Rightarrow> (outcome, w', log @ [job])))"

definition invocations :: "string \<Rightarrow> ('d, 'r) QueueJob list \<Rightarrow> nat" where
  "invocations i log = length (filter (\<lambda>job. job_id job = i) log)"

text \<open>
  Where a job stands: pending in the active map after \<open>k\<close> attempts out of \<open>m\<close>, or dead
  in the dead-letter queue after \<open>m\<close> attempts.
\<close>

definition job_pending_at :: "string \<Rightarrow> int \<Rightarrow> int \<Rightarrow> ('d, 'r) MemoryQueue \<Rightarrow> bool" where
  "job_pending_at i k m q =
     ((case map_of (jobs q) i of
         None \<Rightarrow> False
       | Some job \<Rightarrow> status job = Pending \<and> attempts job = k \<and> maxAttempts job = m)
      \<and> map_of (deadLetterQueue q) i = None)"

definition job_dead_at :: "string \<Rightarrow> int \<Rightarrow> ('d, 'r) MemoryQueue \<Rightarrow> bool" where
  "job_dead_at i m q =
     (map_of (jobs q) i = None
      \<and> (case map_of (deadLetterQueue q) i of
            None \<Rightarrow> False
          | Some job \<Rightarrow> status job = Dead \<and> attempts job = m \<and> maxAttempts job = m))"

text \<open>
  What holds of a queue at all times: each map has its keys once, a job sits under its own
  id, and no id is in both maps.
\<close>

definition wf_queue :: "('d, 'r) MemoryQueue \<Rightarrow> bool" where
  "wf_queue q =
     (distinct (map fst (jobs q)) \<and> distinct (map fst (deadLetterQueue q))
      \<and> list_all (\<lambda>(i, job). job_id job = i) (jobs q)
      \<and> list_all (\<lambda>(i, job). job_id job = i) (deadLetterQueue q)
      \<and> list_all (\<lambda>i. i \<notin> set (map fst (deadLetterQueue q))) (map fst (jobs q)))"

section \<open>Concrete inputs\<close>

text \<open>A clock that is the world itself, and calls that take one millisecond.\<close>

definition ms_clock :: "int \<Rightarrow> int" where
  "ms_clock w = w"









definition connection_refused :: Error where
  "connection_refused =
     \<lparr>err_message = ''connect ECONNREFUSED 10.0.0.5:5432'',
      err_stack = ''Error: connect ECONNREFUSED 10.0.0.5:5432 at TCPConnectWrap.afterConnect''\<rparr>"

definition throwing_handler :: "(unit, int) tool_handler" where
  "throwing_handler args w = (Inl connection_refused, w + 1)"

definition throwing_client :: "(unit, int) McpTestClient" where
  "throwing_client = registerTool ''send_text_message'' throwing_handler new_McpTestClient"

definition failing_session :: "int Session" where
  "failing_session =
     \<lparr>isConnected = True, sendText = (\<lambda>jid txt w. (Inl connection_refused, w + 1))\<rparr>"

definition one_session :: "string \<Rightarrow> int Session option" where
  "one_session sid = (if sid = ''main'' then Some failing_session else None)"

definition hello_args :: SendTextArgs where
  "hello_args = \<lparr>sessionId = ''main'', to = ''1234@s.whatsapp.net'', text_arg = ''hello''\<rparr>"

text \<open>
  The options of the MCP limiter, a tighter configuration, an empty store, and a store
  whose entry for the anonymous caller has seen its window pass.
\<close>

definition mcp_options :: RateLimiterOptions where
  "mcp_options = \<lparr>opt_windowMs = None, opt_defaultLimit = None, opt_config = Some RateLimits_MCP\<rparr>"

definition tight_options :: RateLimiterOptions where
  "tight_options =
     \<lparr>opt_windowMs = None, opt_defaultLimit = None,
      opt_config = Some \<lparr>windowMs = 60000, limit = 3, burstLimit = 2, burstWindowMs = 1000\<rparr>\<rparr>"

definition empty_store :: RateLimitStore where
  "empty_store = Map.empty"

definition stale_store :: RateLimitStore where
  "stale_store =
     empty_store(''anonymous'' \<mapsto> \<lparr>count = 4, resetAt = 60000, burstCount = 1, lastBurstReset = 6000\<rparr>)"

text \<open>
  Job handlers that always succeed and always fail, a queue of concurrency one with four
  jobs of alternating priority, and a queue with the default options and one job.
\<close>

definition ok_job_handler :: "(unit, unit) QueueJob \<Rightarrow> int \<Rightarrow> (string + unit) \<times> int" where
  "ok_job_handler job w = (Inr (), w + 1)"

definition failing_job_handler :: "(unit, unit) QueueJob \<Rightarrow> int \<Rightarrow> (string + unit) \<times> int" where
  "failing_job_handler job w = (Inl ''send failed'', w + 1)"

definition log_clock :: "int \<times> (unit, unit) QueueJob list \<Rightarrow> int" where
  "log_clock s = ms_clock (fst s)"


definition single_queue :: "(unit, unit) MemoryQueue" where
  "single_queue =
     snd (add ''job-1'' 0 ''send'' () None None (new_MemoryQueue ''outgoing'' None None None None))"

text \<open>The single job after two failed attempts, and the job as it is marked for the first
  and for the third attempt.\<close>

definition twice_failed_queue :: "(unit, unit) MemoryQueue" where
  "twice_failed_queue = fst (processNext_times 2 ms_clock failing_job_handler (single_queue, 0))"

definition first_attempt :: "(unit, unit) QueueJob" where
  "first_attempt =
     \<lparr>job_id = ''job-1'', job_type = ''send'', job_data = (), priority = Normal,
      status = Processing, attempts = 1, maxAttempts = 3, createdAt = 0,
      processedAt = Some 0, completedAt = None, job_error = None, job_result = None\<rparr>"

definition third_attempt :: "(unit, unit) QueueJob" where
  "third_attempt =
     \<lparr>job_id = ''job-1'', job_type = ''send'', job_data = (), priority = Normal,
      status = Processing, attempts = 3, maxAttempts = 3, createdAt = 0,
      processedAt = Some 2, completedAt = None, job_error = Some ''send failed'', job_result = None\<rparr>"

section \<open>Properties of the circuit breaker\<close>

lemma execute_fail:
  assumes "fst (fn w) = Inl e"
  shows "state cb \<noteq> OPEN \<Longrightarrow> fst (snd (execute clock fn (cb, w))) = onFailure (clock (snd (fn w))) cb"
  using assms by (cases "fn w") (simp add: execute_def gate_def)




















section \<open>Properties of the tool-call interface\<close>














lemma callTool_throwing:
  assumes "map_of (toolHandlers c) nm = Some handler" and "handler args w = (Inl err, w')"
  shows "callTool nm args (c, w)
           = (internal_error err,
              c\<lparr>callHistory := callHistory c @ [(nm, args, internal_error err)]\<rparr>, w')"
  using assms by (simp add: callTool_def Let_def)

lemma internal_error_ignores_stack: "internal_error (err\<lparr>err_stack := s\<rparr>) = internal_error err"
  by (simp add: internal_error_def)

lemma quote_connection_refused:
  "quote (err_message connection_refused)
     = CHR 0x22 # ''connect ECONNREFUSED 10.0.0.5:5432'' @ [CHR 0x22]"
  by (simp add: quote_def escape_char_def connection_refused_def)

text \<open>
  Claim C2 does not hold of the code. A handler registered under send_text_message throws
  an error whose message names a host and a port; \<open>callTool\<close> answers with the code
  INTERNAL_ERROR and, in the field \<open>error\<close>, that message as it was thrown. The handler
  of the MCP server does the same when \<open>sendText\<close> throws, under the code SEND_FAILED,
  which is not a member of the error-code enumeration. The stack of the error is not part
  of either result.
\<close>

theorem handler_message_reaches_caller:
  "fst (callTool ''send_text_message'' () (throwing_client, 0))
     = \<lparr>content = [\<lparr>c_type = ''text'',
                     c_text = ''{'' @ quote ''error'' @ '':'' @ quote (err_message connection_refused)
                              @ '','' @ quote ''code'' @ '':'' @ quote ''INTERNAL_ERROR'' @ ''}''\<rparr>],
        isError = Some True\<rparr>
   \<and> fst (send_text_message one_session hello_args 0)
     = \<lparr>content = [\<lparr>c_type = ''text'',
                     c_text = ''{'' @ quote ''error'' @ '':'' @ quote (err_message connection_refused)
                              @ '','' @ quote ''code'' @ '':'' @ quote ''SEND_FAILED'' @ ''}''\<rparr>],
        isError = Some True\<rparr>
   \<and> quote (err_message connection_refused)
       = CHR 0x22 # ''connect ECONNREFUSED 10.0.0.5:5432'' @ [CHR 0x22]
   \<and> ''SEND_FAILED'' \<notin> set ErrorCode_values"
proof -
  have 1: "map_of (toolHandlers throwing_client) ''send_text_message'' = Some throwing_handler"
    by (simp add: throwing_client_def registerTool_def new_McpTestClient_def)
  have 2: "throwing_handler () 0 = (Inl connection_refused, 1)"
    by (simp add: throwing_handler_def)
  have a: "fst (callTool ''send_text_message'' () (throwing_client, 0)) = internal_error connection_refused"
    by (simp add: callTool_throwing [OF 1 2])
  have b: "fst (send_text_message one_session hello_args 0)
             = error_result (err_message connection_refused) ''SEND_FAILED''"
    by (simp add: send_text_message_def one_session_def hello_args_def failing_session_def)
  have c: "''SEND_FAILED'' \<notin> set ErrorCode_values"
    by (simp add: ErrorCode_values_def)
  show ?thesis
    using a b c quote_connection_refused by (simp add: internal_error_def error_result_def)
qed

section \<open>Properties of the rate limiter\<close>

lemma rateLimiter_store:
  "snd (rateLimiter opts now c store)
     = store(identifier_of c \<mapsto> counted_entry opts now (store (identifier_of c)))"
  by (simp add: rateLimiter_def Let_def)

lemma rateLimiter_burst:
  assumes "burstLimit (the_config opts) < burstCount (counted_entry opts now (store (identifier_of c)))"
  shows "rejected (fst (rateLimiter opts now c store))"
    and "retry_after (fst (rateLimiter opts now c store)) = Some ''1''"
  using assms by (simp_all add: rateLimiter_def Let_def rejected_def retry_after_def errorResponse_def)

lemma rateLimiter_window:
  assumes "\<not> burstLimit (the_config opts) < burstCount (counted_entry opts now (store (identifier_of c)))"
    and "limit_of opts c < count (counted_entry opts now (store (identifier_of c)))"
  shows "rejected (fst (rateLimiter opts now c store))"
    and "retry_after (fst (rateLimiter opts now c store))
           = Some (JS_String (ceil_div (resetAt (counted_entry opts now (store (identifier_of c))) - now) 1000))"
  using assms by (simp_all add: rateLimiter_def Let_def rejected_def retry_after_def errorResponse_def)

lemma rateLimiter_next:
  assumes "\<not> burstLimit (the_config opts) < burstCount (counted_entry opts now (store (identifier_of c)))"
    and "\<not> limit_of opts c < count (counted_entry opts now (store (identifier_of c)))"
  shows "snd (fst (rateLimiter opts now c store)) = Next"
    and "retry_after (fst (rateLimiter opts now c store)) = None"
    and "\<not> rejected (fst (rateLimiter opts now c store))"
  using assms by (simp_all add: rateLimiter_def Let_def rejected_def retry_after_def)

text \<open>
  The object \<open>ErrorCodes\<close> has no member \<open>RATE_LIMITED\<close>, so the body of a rejection
  carries no code; what tells a rejection is its status and its message.
\<close>

lemma ErrorCodes_lacks_rate_limited: "map_of ErrorCodes ''RATE_LIMITED'' = None"
  by (simp add: ErrorCodes_def)

lemma rejection_body:
  assumes "rejected (fst (rateLimiter opts now c store))"
  shows "\<exists>body. snd (fst (rateLimiter opts now c store)) = Json body 429
            \<and> success body = False \<and> error_code body = None
            \<and> error_message body \<in> {''Too many requests. Slow down.'',
                                      ''Rate limit exceeded. Please try again later.''}"
  using assms
  by (auto simp: rateLimiter_def Let_def rejected_def errorResponse_def ErrorCodes_lacks_rate_limited
           split: if_splits)

lemma counted_entry_fresh:
  assumes "stored = None \<or> (\<exists>e. stored = Some e \<and> resetAt e < now)"
  shows "counted_entry opts now stored
           = \<lparr>count = 1, resetAt = now + the_windowMs opts, burstCount = 1, lastBurstReset = now\<rparr>"
  using assms by (auto simp: counted_entry_def window_entry_def burst_entry_def Let_def)

lemma counted_entry_live:
  assumes "\<not> resetAt e < now"
  shows "count (counted_entry opts now (Some e)) = count e + 1"
    and "resetAt (counted_entry opts now (Some e)) = resetAt e"
    and "burstCount (counted_entry opts now (Some e))
           = (if burstWindowMs (the_config opts) \<le> now - lastBurstReset e then 1 else burstCount e + 1)"
    and "lastBurstReset (counted_entry opts now (Some e))
           = (if burstWindowMs (the_config opts) \<le> now - lastBurstReset e then now else lastBurstReset e)"
  using assms by (simp_all add: counted_entry_def window_entry_def burst_entry_def Let_def)

lemma requests_snoc:
  "requests opts c (nows @ [now]) store
     = (fst (requests opts c nows store) @ [fst (rateLimiter opts now c (snd (requests opts c nows store)))],
        snd (rateLimiter opts now c (snd (requests opts c nows store))))"
  by (induction nows arbitrary: store) (simp_all split: prod.splits)

lemma requests_Cons:
  "requests opts c (now # nows) store
     = (fst (rateLimiter opts now c store) # fst (requests opts c nows (snd (rateLimiter opts now c store))),
        snd (requests opts c nows (snd (rateLimiter opts now c store))))"
  by (simp split: prod.splits)

lemma length_requests: "length (fst (requests opts c nows store)) = length nows"
proof (induction nows arbitrary: store)
  case Nil
  show ?case by simp
next
  case (Cons now nows)
  then show ?case by (simp add: requests_Cons del: requests.simps)
qed

text \<open>Requests inside a live sustained window only count up.\<close>

lemma window_counts:
  assumes "store (identifier_of c) = Some e" and "\<forall>t\<in>set nows. t \<le> resetAt e"
  shows "\<exists>e'. snd (requests opts c nows store) (identifier_of c) = Some e'
              \<and> count e' = count e + int (length nows) \<and> resetAt e' = resetAt e"
  using assms
proof (induction nows arbitrary: store e)
  case Nil
  then show ?case by simp
next
  case (Cons now nows)
  let ?e1 = "counted_entry opts now (Some e)"
  let ?s1 = "snd (rateLimiter opts now c store)"
  have live: "\<not> resetAt e < now" using Cons.prems(2) by simp
  have s1: "?s1 (identifier_of c) = Some ?e1"
    using Cons.prems(1) by (simp add: rateLimiter_store)
  have "\<forall>t\<in>set nows. t \<le> resetAt ?e1"
    using Cons.prems(2) live by (simp add: counted_entry_live)
  from Cons.IH [of ?s1 ?e1, OF s1 this] obtain e' where
    "snd (requests opts c nows ?s1) (identifier_of c) = Some e'"
    "count e' = count ?e1 + int (length nows)" "resetAt e' = resetAt ?e1"
    by blast
  then show ?case
    using live by (simp add: requests_Cons counted_entry_live del: requests.simps)
qed

text \<open>Requests inside a live sustained window and a live burst window count up both.\<close>

lemma burst_counts:
  assumes "store (identifier_of c) = Some e"
    and "\<forall>t\<in>set nows. t \<le> resetAt e \<and> t - lastBurstReset e < burstWindowMs (the_config opts)"
  shows "\<exists>e'. snd (requests opts c nows store) (identifier_of c) = Some e'
              \<and> burstCount e' = burstCount e + int (length nows)
              \<and> lastBurstReset e' = lastBurstReset e
              \<and> count e' = count e + int (length nows) \<and> resetAt e' = resetAt e"
  using assms
proof (induction nows arbitrary: store e)
  case Nil
  then show ?case by simp
next
  case (Cons now nows)
  let ?e1 = "counted_entry opts now (Some e)"
  let ?s1 = "snd (rateLimiter opts now c store)"
  have live: "\<not> resetAt e < now" "\<not> burstWindowMs (the_config opts) \<le> now - lastBurstReset e"
    using Cons.prems(2) by auto
  have s1: "?s1 (identifier_of c) = Some ?e1"
    using Cons.prems(1) by (simp add: rateLimiter_store)
  have "\<forall>t\<in>set nows. t \<le> resetAt ?e1 \<and> t - lastBurstReset ?e1 < burstWindowMs (the_config opts)"
    using Cons.prems(2) live by (simp add: counted_entry_live)
  from Cons.IH [of ?s1 ?e1, OF s1 this] obtain e' where
    "snd (requests opts c nows ?s1) (identifier_of c) = Some e'"
    "burstCount e' = burstCount ?e1 + int (length nows)"
    "lastBurstReset e' = lastBurstReset ?e1"
    "count e' = count ?e1 + int (length nows)" "resetAt e' = resetAt ?e1"
    by blast
  then show ?case
    using live by (simp add: requests_Cons counted_entry_live del: requests.simps)
qed

lemma last_request:
  assumes "nows \<noteq> []"
  shows "last (fst (requests opts c nows store))
           = fst (rateLimiter opts (last nows) c (snd (requests opts c (butlast nows) store)))"
    and "snd (requests opts c nows store)
           = snd (rateLimiter opts (last nows) c (snd (requests opts c (butlast nows) store)))"
proof -
  have "requests opts c nows store = requests opts c (butlast nows @ [last nows]) store"
    using assms by simp
  then show "last (fst (requests opts c nows store))
           = fst (rateLimiter opts (last nows) c (snd (requests opts c (butlast nows) store)))"
    and "snd (requests opts c nows store)
           = snd (rateLimiter opts (last nows) c (snd (requests opts c (butlast nows) store)))"
    by (simp_all only: requests_snoc fst_conv snd_conv last_snoc)
qed

lemma last_entry_stored:
  "snd (requests opts c (t0 # rest) store) (identifier_of c) = Some (last_entry opts c t0 rest store)"
  by (simp add: last_request(2) [of "t0 # rest"] rateLimiter_store last_entry_def del: requests.simps)

lemma sustained_kth:
  assumes "\<forall>t\<in>set rest. t \<le> resetAt (counted_entry opts t0 (store (identifier_of c)))"
  shows "count (last_entry opts c t0 rest store)
           = count (counted_entry opts t0 (store (identifier_of c))) + int (length rest)"
    and "resetAt (last_entry opts c t0 rest store)
           = resetAt (counted_entry opts t0 (store (identifier_of c)))"
proof -
  let ?e1 = "counted_entry opts t0 (store (identifier_of c))"
  let ?s1 = "snd (rateLimiter opts t0 c store)"
  have s1: "?s1 (identifier_of c) = Some ?e1" by (simp add: rateLimiter_store)
  have "count (last_entry opts c t0 rest store) = count ?e1 + int (length rest)
      \<and> resetAt (last_entry opts c t0 rest store) = resetAt ?e1"
  proof (cases rest rule: rev_cases)
    case Nil
    then show ?thesis by (simp add: last_entry_def)
  next
    case (snoc rest' tl)
    have "\<forall>t\<in>set rest'. t \<le> resetAt ?e1" using assms snoc by simp
    from window_counts [of ?s1 c ?e1 rest' opts, OF s1 this] obtain e' where e':
      "snd (requests opts c rest' ?s1) (identifier_of c) = Some e'"
      "count e' = count ?e1 + int (length rest')" "resetAt e' = resetAt ?e1"
      by blast
    have live: "\<not> resetAt e' < tl" using assms snoc e'(3) by simp
    have "last_entry opts c t0 rest store = counted_entry opts tl (Some e')"
      using snoc e'(1) by (simp add: last_entry_def requests_Cons butlast_append del: requests.simps)
    then show ?thesis using e' live snoc by (simp add: counted_entry_live)
  qed
  then show "count (last_entry opts c t0 rest store) = count ?e1 + int (length rest)"
    and "resetAt (last_entry opts c t0 rest store) = resetAt ?e1"
    by simp_all
qed

lemma burst_kth:
  assumes "\<forall>t\<in>set rest. t \<le> resetAt (counted_entry opts t0 (store (identifier_of c)))
             \<and> t - lastBurstReset (counted_entry opts t0 (store (identifier_of c)))
                 < burstWindowMs (the_config opts)"
  shows "burstCount (last_entry opts c t0 rest store)
           = burstCount (counted_entry opts t0 (store (identifier_of c))) + int (length rest)"
proof -
  let ?e1 = "counted_entry opts t0 (store (identifier_of c))"
  let ?s1 = "snd (rateLimiter opts t0 c store)"
  have s1: "?s1 (identifier_of c) = Some ?e1" by (simp add: rateLimiter_store)
  show ?thesis
  proof (cases rest rule: rev_cases)
    case Nil
    then show ?thesis by (simp add: last_entry_def)
  next
    case (snoc rest' tl)
    have "\<forall>t\<in>set rest'. t \<le> resetAt ?e1 \<and> t - lastBurstReset ?e1 < burstWindowMs (the_config opts)"
      using assms snoc by simp
    from burst_counts [of ?s1 c ?e1 rest' opts, OF s1 this] obtain e' where e':
      "snd (requests opts c rest' ?s1) (identifier_of c) = Some e'"
      "burstCount e' = burstCount ?e1 + int (length rest')"
      "lastBurstReset e' = lastBurstReset ?e1" "resetAt e' = resetAt ?e1"
      by blast
    have live: "\<not> resetAt e' < tl" "\<not> burstWindowMs (the_config opts) \<le> tl - lastBurstReset e'"
      using assms snoc e'(3,4) by auto
    have "last_entry opts c t0 rest store = counted_entry opts tl (Some e')"
      using snoc e'(1) by (simp add: last_entry_def requests_Cons butlast_append del: requests.simps)
    then show ?thesis using e' live snoc by (simp add: counted_entry_live)
  qed
qed

lemma last_response:
  "last (fst (requests opts c (t0 # rest) store))
     = fst (rateLimiter opts (last (t0 # rest)) c (snd (requests opts c (butlast (t0 # rest)) store)))"
  using last_request(1) [of "t0 # rest" opts c store] by simp

lemma last_rejected_burst:
  assumes "burstLimit (the_config opts) < burstCount (last_entry opts c t0 rest store)"
  shows "rejected (last (fst (requests opts c (t0 # rest) store)))"
    and "retry_after (last (fst (requests opts c (t0 # rest) store))) = Some ''1''"
  using assms unfolding last_response last_entry_def
  by (simp_all add: rateLimiter_burst)

lemma last_rejected_window:
  assumes "\<not> burstLimit (the_config opts) < burstCount (last_entry opts c t0 rest store)"
    and "limit_of opts c < count (last_entry opts c t0 rest store)"
  shows "rejected (last (fst (requests opts c (t0 # rest) store)))"
    and "retry_after (last (fst (requests opts c (t0 # rest) store)))
           = Some (JS_String (ceil_div (resetAt (last_entry opts c t0 rest store) - last (t0 # rest)) 1000))"
  using assms unfolding last_response last_entry_def
  by (simp_all add: rateLimiter_window)

lemma admitted_after_reset:
  assumes "store (identifier_of c) = None \<or> (\<exists>e. store (identifier_of c) = Some e \<and> resetAt e < now)"
    and "1 \<le> limit_of opts c" and "1 \<le> burstLimit (the_config opts)"
  shows "snd (fst (rateLimiter opts now c store)) = Next"
proof -
  note e = counted_entry_fresh [OF assms(1), of opts]
  show ?thesis
    using assms(2,3) by (intro rateLimiter_next) (simp_all add: e)
qed

lemma JS_String_54: "JS_String 54 = ''54''" by code_simp
lemma JS_String_58: "JS_String 58 = ''58''" by code_simp
lemma JS_String_60: "JS_String 60 = ''60''" by code_simp

lemma mcp_first_entry:
  "counted_entry mcp_options 0 (empty_store (identifier_of anonymous))
     = \<lparr>count = 1, resetAt = 60000, burstCount = 1, lastBurstReset = 0\<rparr>"
  by (simp add: counted_entry_fresh empty_store_def the_windowMs_def the_config_def
        mcp_options_def RateLimits_MCP_def)

lemma tight_config:
  "the_config tight_options = \<lparr>windowMs = 60000, limit = 3, burstLimit = 2, burstWindowMs = 1000\<rparr>"
  "the_windowMs tight_options = 60000"
  "limit_of tight_options anonymous = 3"
  "identifier_of anonymous = ''anonymous''"
  by (simp_all add: the_config_def the_windowMs_def limit_of_def the_defaultLimit_def
        tight_options_def anonymous_def identifier_of_def)

lemma tight_first_entry:
  "counted_entry tight_options 0 (empty_store ''anonymous'')
     = \<lparr>count = 1, resetAt = 60000, burstCount = 1, lastBurstReset = 0\<rparr>"
  by (simp add: counted_entry_fresh empty_store_def tight_config)

lemmas run_tight =
  rateLimiter_def Let_def counted_entry_def window_entry_def burst_entry_def tight_config
  rejected_def retry_after_def errorResponse_def empty_store_def ceil_div_def
  JS_String_54 JS_String_58 JS_String_60

text \<open>
  Claim C4, as stated, fails where the two limits meet: the burst check comes first. With
  the limits of the MCP path (30 per minute, 5 per second), 31 requests of one caller in
  the same millisecond make the last one the 31st of its window, and it is rejected with
  Retry-After 1, while the window is reset only 60 seconds later.
\<close>

theorem burst_retry_after_on_window_overrun:
  "count (last_entry mcp_options anonymous 0 (replicate 30 0) empty_store)
     = limit_of mcp_options anonymous + 1
   \<and> resetAt (last_entry mcp_options anonymous 0 (replicate 30 0) empty_store) - 0 = 60000
   \<and> rejected (last (fst (requests mcp_options anonymous (0 # replicate 30 0) empty_store)))
   \<and> retry_after (last (fst (requests mcp_options anonymous (0 # replicate 30 0) empty_store)))
       = Some ''1''
   \<and> JS_String (ceil_div 60000 1000) = ''60''"
proof -
  have cfg: "the_config mcp_options = RateLimits_MCP"
    by (simp add: the_config_def mcp_options_def)
  have lim: "limit_of mcp_options anonymous = 30"
    by (simp add: limit_of_def anonymous_def the_defaultLimit_def the_config_def
          mcp_options_def RateLimits_MCP_def)
  have w: "\<forall>t\<in>set (replicate 30 (0::int)).
             t \<le> resetAt (counted_entry mcp_options 0 (empty_store (identifier_of anonymous)))"
    by (simp add: mcp_first_entry)
  have b: "\<forall>t\<in>set (replicate 30 (0::int)).
             t \<le> resetAt (counted_entry mcp_options 0 (empty_store (identifier_of anonymous)))
             \<and> t - lastBurstReset (counted_entry mcp_options 0 (empty_store (identifier_of anonymous)))
                 < burstWindowMs (the_config mcp_options)"
    by (simp add: mcp_first_entry cfg RateLimits_MCP_def)
  have 1: "count (last_entry mcp_options anonymous 0 (replicate 30 0) empty_store) = 31"
    using sustained_kth(1) [where store = empty_store, OF w] by (simp add: mcp_first_entry)
  have 2: "resetAt (last_entry mcp_options anonymous 0 (replicate 30 0) empty_store) = 60000"
    using sustained_kth(2) [where store = empty_store, OF w] by (simp add: mcp_first_entry)
  have 3: "burstCount (last_entry mcp_options anonymous 0 (replicate 30 0) empty_store) = 31"
    using burst_kth [where store = empty_store, OF b] by (simp add: mcp_first_entry)
  have 4: "burstLimit (the_config mcp_options)
             < burstCount (last_entry mcp_options anonymous 0 (replicate 30 0) empty_store)"
    using 3 by (simp add: cfg RateLimits_MCP_def)
  have 5: "JS_String (ceil_div 60000 1000) = ''60''"
    by (simp add: ceil_div_def JS_String_60)
  show ?thesis
    using 1 2 5 lim last_rejected_burst [OF 4] by simp
qed

text \<open>
  Claim C4, amended. Take the requests of one caller at the times \<open>t0 # rest\<close>, the first
  of which opened a sustained window (its counter is 1 after it) and the others no later
  than that window's reset time. If there are \<open>L + 1\<close> of them, \<open>L\<close> being the caller's
  limit, the last is rejected, that is, answered with status 429; its Retry-After
  is 1 when its burst counter exceeds the burst limit, and otherwise the time left until
  the reset, in seconds rounded up. A request that comes after the reset time of the
  caller's entry is let through, both limits being at least one. And if the first request
  opened a burst window, the others come less than \<open>burstWindowMs\<close> after it and no later
  than the reset time, and there are \<open>B + 1\<close> of them, \<open>B\<close> being the burst limit, the
  last is rejected with Retry-After 1, whatever the sustained counter is.
\<close>

theorem rate_limit_windows:
  "(\<forall>store t0 rest.
      count (counted_entry opts t0 (store (identifier_of c))) = 1
      \<and> (\<forall>t\<in>set rest. t \<le> resetAt (counted_entry opts t0 (store (identifier_of c))))
      \<and> int (length rest) = limit_of opts c \<longrightarrow>
        rejected (last (fst (requests opts c (t0 # rest) store)))
        \<and> count (last_entry opts c t0 rest store) = limit_of opts c + 1
        \<and> retry_after (last (fst (requests opts c (t0 # rest) store)))
            = Some (if burstLimit (the_config opts) < burstCount (last_entry opts c t0 rest store)
                    then ''1''
                    else JS_String (ceil_div (resetAt (counted_entry opts t0 (store (identifier_of c)))
                                              - last (t0 # rest)) 1000)))
   \<and> (\<forall>store now e.
        store (identifier_of c) = Some e \<and> resetAt e < now
        \<and> 1 \<le> limit_of opts c \<and> 1 \<le> burstLimit (the_config opts) \<longrightarrow>
          snd (fst (rateLimiter opts now c store)) = Next)
   \<and> (\<forall>store t0 rest.
        burstCount (counted_entry opts t0 (store (identifier_of c))) = 1
        \<and> lastBurstReset (counted_entry opts t0 (store (identifier_of c))) = t0
        \<and> (\<forall>t\<in>set rest. t \<le> resetAt (counted_entry opts t0 (store (identifier_of c)))
                          \<and> t - t0 < burstWindowMs (the_config opts))
        \<and> int (length rest) = burstLimit (the_config opts) \<longrightarrow>
          rejected (last (fst (requests opts c (t0 # rest) store)))
          \<and> retry_after (last (fst (requests opts c (t0 # rest) store))) = Some ''1'')"
proof (intro conjI allI impI)
  fix store t0 rest
  assume a: "count (counted_entry opts t0 (store (identifier_of c))) = 1
      \<and> (\<forall>t\<in>set rest. t \<le> resetAt (counted_entry opts t0 (store (identifier_of c))))
      \<and> int (length rest) = limit_of opts c"
  then have w: "\<forall>t\<in>set rest. t \<le> resetAt (counted_entry opts t0 (store (identifier_of c)))"
    by simp
  have cnt: "count (last_entry opts c t0 rest store) = limit_of opts c + 1"
    using a sustained_kth(1) [where store = store, OF w] by simp
  have rst: "resetAt (last_entry opts c t0 rest store)
           = resetAt (counted_entry opts t0 (store (identifier_of c)))"
    using sustained_kth(2) [where store = store, OF w] by simp
  show "count (last_entry opts c t0 rest store) = limit_of opts c + 1" by (rule cnt)
  show "rejected (last (fst (requests opts c (t0 # rest) store)))"
  proof (cases "burstLimit (the_config opts) < burstCount (last_entry opts c t0 rest store)")
    case True
    then show ?thesis by (rule last_rejected_burst(1))
  next
    case False
    then show ?thesis using cnt by (intro last_rejected_window(1)) simp_all
  qed
  show "retry_after (last (fst (requests opts c (t0 # rest) store)))
            = Some (if burstLimit (the_config opts) < burstCount (last_entry opts c t0 rest store)
                    then ''1''
                    else JS_String (ceil_div (resetAt (counted_entry opts t0 (store (identifier_of c)))
                                              - last (t0 # rest)) 1000))"
  proof (cases "burstLimit (the_config opts) < burstCount (last_entry opts c t0 rest store)")
    case True
    then show ?thesis using last_rejected_burst(2) [OF True] by simp
  next
    case False
    have "limit_of opts c < count (last_entry opts c t0 rest store)" using cnt by simp
    from last_rejected_window(2) [OF False this] show ?thesis using False rst by simp
  qed
next
  fix store :: RateLimitStore and now and e :: RateLimitEntry
  assume "store (identifier_of c) = Some e \<and> resetAt e < now
        \<and> 1 \<le> limit_of opts c \<and> 1 \<le> burstLimit (the_config opts)"
  then show "snd (fst (rateLimiter opts now c store)) = Next"
    by (intro admitted_after_reset) auto
next
  fix store t0 rest
  assume a: "burstCount (counted_entry opts t0 (store (identifier_of c))) = 1
        \<and> lastBurstReset (counted_entry opts t0 (store (identifier_of c))) = t0
        \<and> (\<forall>t\<in>set rest. t \<le> resetAt (counted_entry opts t0 (store (identifier_of c)))
                          \<and> t - t0 < burstWindowMs (the_config opts))
        \<and> int (length rest) = burstLimit (the_config opts)"
  then have "\<forall>t\<in>set rest. t \<le> resetAt (counted_entry opts t0 (store (identifier_of c)))
             \<and> t - lastBurstReset (counted_entry opts t0 (store (identifier_of c)))
                 < burstWindowMs (the_config opts)"
    by simp
  from burst_kth [where store = store, OF this] a
  have b: "burstLimit (the_config opts) < burstCount (last_entry opts c t0 rest store)" by simp
  show "rejected (last (fst (requests opts c (t0 # rest) store)))"
    using b by (rule last_rejected_burst(1))
  show "retry_after (last (fst (requests opts c (t0 # rest) store))) = Some ''1''"
    using b by (rule last_rejected_burst(2))
qed

theorem rate_limit_windows_witness:
  "rejected (last (fst (requests tight_options anonymous [0, 2000, 4000, 6000] empty_store)))
   \<and> retry_after (last (fst (requests tight_options anonymous [0, 2000, 4000, 6000] empty_store)))
       = Some ''54''
   \<and> snd (fst (rateLimiter tight_options 60001 anonymous stale_store)) = Next
   \<and> rejected (last (fst (requests tight_options anonymous [0, 1, 2] empty_store)))
   \<and> retry_after (last (fst (requests tight_options anonymous [0, 1, 2] empty_store))) = Some ''1''
   \<and> count (last_entry tight_options anonymous 0 [1, 2] empty_store) = 3"
proof -
  note t = rate_limit_windows [of tight_options anonymous]
  have bc: "burstCount (last_entry tight_options anonymous 0 [2000, 4000, 6000] empty_store) = 1"
    by (simp add: last_entry_def rateLimiter_def Let_def counted_entry_def window_entry_def burst_entry_def tight_config empty_store_def)
  have a: "rejected (last (fst (requests tight_options anonymous [0, 2000, 4000, 6000] empty_store)))
     \<and> retry_after (last (fst (requests tight_options anonymous [0, 2000, 4000, 6000] empty_store)))
         = Some ''54''"
    using t [THEN conjunct1, rule_format, of 0 empty_store "[2000, 4000, 6000]"] bc
    by (simp add: tight_config tight_first_entry ceil_div_def JS_String_54 del: requests.simps)
  have b: "snd (fst (rateLimiter tight_options 60001 anonymous stale_store)) = Next"
    using t [THEN conjunct2, THEN conjunct1, rule_format, of stale_store _ 60001]
    by (simp add: tight_config stale_store_def)
  have c: "rejected (last (fst (requests tight_options anonymous [0, 1, 2] empty_store)))
     \<and> retry_after (last (fst (requests tight_options anonymous [0, 1, 2] empty_store))) = Some ''1''"
    using t [THEN conjunct2, THEN conjunct2, rule_format, of 0 empty_store "[1, 2]"]
    by (simp add: tight_config tight_first_entry del: requests.simps)
  have d: "count (last_entry tight_options anonymous 0 [1, 2] empty_store) = 3"
    by (simp add: last_entry_def rateLimiter_def Let_def counted_entry_def window_entry_def burst_entry_def tight_config empty_store_def)
  from a b c d show ?thesis by simp
qed

text \<open>
  Claim C8, as stated, fails: when the sustained window has passed, the entry is made anew
  and the burst counter and the start of the burst window are reset with it. After
  requests at 0 ms and twice at 60000 ms the burst counter is 2, the burst limit; one
  millisecond later the sustained window has passed, the burst counter starts again at
  1, and the request is let through.
\<close>

theorem sustained_reset_resets_burst:
  "snd (requests tight_options anonymous [0, 60000, 60000] empty_store) ''anonymous''
     = Some \<lparr>count = 3, resetAt = 60000, burstCount = 2, lastBurstReset = 60000\<rparr>
   \<and> snd (requests tight_options anonymous [0, 60000, 60000, 60001] empty_store) ''anonymous''
     = Some \<lparr>count = 1, resetAt = 120001, burstCount = 1, lastBurstReset = 60001\<rparr>
   \<and> map snd (fst (requests tight_options anonymous [0, 60000, 60000, 60001] empty_store))
     = [Next, Next, Next, Next]"
  by (simp add: run_tight)

text \<open>
  Claim C8, amended. The reset of the burst window changes neither the sustained counter
  nor the reset time. While the sustained window of an entry has not passed, the entry is
  kept: the sustained counter goes up by one, and the burst counter and the start of the
  burst window are reset exactly when \<open>burstWindowMs\<close> have passed since that start.
  When the sustained window has passed, all four fields start anew: the burst counter and
  the start of the burst window are reset together with the sustained counter.
\<close>

theorem window_resets:
  "count (burst_entry (the_config opts) now e) = count e
   \<and> resetAt (burst_entry (the_config opts) now e) = resetAt e
   \<and> (\<not> resetAt e < now \<longrightarrow>
        window_entry (the_windowMs opts) now (Some e) = e
        \<and> count (counted_entry opts now (Some e)) = count e + 1
        \<and> resetAt (counted_entry opts now (Some e)) = resetAt e
        \<and> burstCount (counted_entry opts now (Some e))
            = (if burstWindowMs (the_config opts) \<le> now - lastBurstReset e then 1 else burstCount e + 1)
        \<and> lastBurstReset (counted_entry opts now (Some e))
            = (if burstWindowMs (the_config opts) \<le> now - lastBurstReset e then now else lastBurstReset e))
   \<and> (resetAt e < now \<longrightarrow>
        counted_entry opts now (Some e)
          = \<lparr>count = 1, resetAt = now + the_windowMs opts, burstCount = 1, lastBurstReset = now\<rparr>)"
proof -
  have a: "count (burst_entry (the_config opts) now e) = count e
       \<and> resetAt (burst_entry (the_config opts) now e) = resetAt e"
    by (simp add: burst_entry_def)
  have b: "resetAt e < now \<longrightarrow>
        counted_entry opts now (Some e)
          = \<lparr>count = 1, resetAt = now + the_windowMs opts, burstCount = 1, lastBurstReset = now\<rparr>"
    by (simp add: counted_entry_fresh)
  have c: "\<not> resetAt e < now \<longrightarrow> window_entry (the_windowMs opts) now (Some e) = e"
    by (simp add: window_entry_def)
  show ?thesis
    using a b c by (simp add: counted_entry_live)
qed

theorem window_resets_witness:
  "counted_entry tight_options 60500 (Some \<lparr>count = 3, resetAt = 60000, burstCount = 2, lastBurstReset = 60000\<rparr>)
     = \<lparr>count = 1, resetAt = 120500, burstCount = 1, lastBurstReset = 60500\<rparr>
   \<and> counted_entry tight_options 2000 (Some \<lparr>count = 2, resetAt = 60000, burstCount = 2, lastBurstReset = 0\<rparr>)
     = \<lparr>count = 3, resetAt = 60000, burstCount = 1, lastBurstReset = 2000\<rparr>"
proof -
  have 1: "counted_entry tight_options 60500 (Some \<lparr>count = 3, resetAt = 60000, burstCount = 2, lastBurstReset = 60000\<rparr>)
     = \<lparr>count = 1, resetAt = 120500, burstCount = 1, lastBurstReset = 60500\<rparr>"
    using window_resets [of tight_options 60500
            "\<lparr>count = 3, resetAt = 60000, burstCount = 2, lastBurstReset = 60000\<rparr>"]
    by (simp add: tight_config)
  have 2: "counted_entry tight_options 2000 (Some \<lparr>count = 2, resetAt = 60000, burstCount = 2, lastBurstReset = 0\<rparr>)
     = \<lparr>count = 3, resetAt = 60000, burstCount = 1, lastBurstReset = 2000\<rparr>"
    using window_resets [of tight_options 2000
            "\<lparr>count = 2, resetAt = 60000, burstCount = 2, lastBurstReset = 0\<rparr>"]
    by (simp add: tight_config RateLimitEntry.equality)
  from 1 2 show ?thesis by simp
qed

text \<open>
  Claim C10. Every call stores the entry with both counters raised by one, whatever the
  response; the call is rejected exactly when one of the raised counters exceeds its
  limit. So with a limit of 3 per minute and 2 per second, of five requests at 0, 0, 0, 0
  and 2000 ms the third and fourth are rejected for the burst and still counted, and the
  fifth is rejected against the sustained limit, with Retry-After 58, although only two
  requests had been let through.
\<close>

theorem rejected_requests_count:
  "snd (rateLimiter opts now c store)
     = store(identifier_of c \<mapsto> counted_entry opts now (store (identifier_of c)))
   \<and> rejected (fst (rateLimiter opts now c store))
       = (burstLimit (the_config opts) < burstCount (counted_entry opts now (store (identifier_of c)))
          \<or> limit_of opts c < count (counted_entry opts now (store (identifier_of c))))
   \<and> count (counted_entry opts now stored)
       = count (burst_entry (the_config opts) now (window_entry (the_windowMs opts) now stored)) + 1
   \<and> burstCount (counted_entry opts now stored)
       = burstCount (burst_entry (the_config opts) now (window_entry (the_windowMs opts) now stored)) + 1
   \<and> map rejected (fst (requests tight_options anonymous [0, 0, 0, 0, 2000] empty_store))
       = [False, False, True, True, True]
   \<and> map retry_after (fst (requests tight_options anonymous [0, 0, 0, 0, 2000] empty_store))
       = [None, None, Some ''1'', Some ''1'', Some ''58'']
   \<and> snd (requests tight_options anonymous [0, 0, 0, 0, 2000] empty_store) ''anonymous''
       = Some \<lparr>count = 5, resetAt = 60000, burstCount = 1, lastBurstReset = 2000\<rparr>"
proof -
  have a: "count (counted_entry opts now stored)
       = count (burst_entry (the_config opts) now (window_entry (the_windowMs opts) now stored)) + 1
   \<and> burstCount (counted_entry opts now stored)
       = burstCount (burst_entry (the_config opts) now (window_entry (the_windowMs opts) now stored)) + 1"
    by (simp add: counted_entry_def Let_def)
  have b: "map rejected (fst (requests tight_options anonymous [0, 0, 0, 0, 2000] empty_store))
       = [False, False, True, True, True]"
    by (simp add: run_tight)
  have c: "map retry_after (fst (requests tight_options anonymous [0, 0, 0, 0, 2000] empty_store))
       = [None, None, Some ''1'', Some ''1'', Some ''58'']"
    by (simp add: run_tight)
  have d: "snd (requests tight_options anonymous [0, 0, 0, 0, 2000] empty_store) ''anonymous''
       = Some \<lparr>count = 5, resetAt = 60000, burstCount = 1, lastBurstReset = 2000\<rparr>"
    by (simp add: run_tight)
  have e: "rejected (fst (rateLimiter opts now c store))
       = (burstLimit (the_config opts) < burstCount (counted_entry opts now (store (identifier_of c)))
          \<or> limit_of opts c < count (counted_entry opts now (store (identifier_of c))))"
    by (simp add: rateLimiter_def Let_def rejected_def errorResponse_def)
  show ?thesis using a b c d e by (simp add: rateLimiter_store del: requests.simps)
qed

section \<open>Properties of the job queue\<close>


lemma sort_key_Nil_iff: "sort_key f xs = [] \<longleftrightarrow> xs = []"
  by (metis length_sort list.size(3) length_0_conv)


lemma hd_sort_key_mem: "xs \<noteq> [] \<Longrightarrow> hd (sort_key f xs) \<in> set xs"
  by (metis hd_in_set set_sort sort_key_Nil_iff)

lemma wf_queue_iff:
  "wf_queue q \<longleftrightarrow>
     distinct (map fst (jobs q)) \<and> distinct (map fst (deadLetterQueue q))
     \<and> (\<forall>k j. map_of (jobs q) k = Some j \<longrightarrow> job_id j = k)
     \<and> (\<forall>k j. map_of (deadLetterQueue q) k = Some j \<longrightarrow> job_id j = k)
     \<and> (\<forall>k. map_of (jobs q) k \<noteq> None \<longrightarrow> map_of (deadLetterQueue q) k = None)"
proof -
  have a: "distinct (map fst xs) \<Longrightarrow>
        list_all (\<lambda>(i, job). job_id job = i) xs \<longleftrightarrow> (\<forall>k j. map_of xs k = Some j \<longrightarrow> job_id j = k)"
    for xs :: "(string \<times> ('a, 'b) QueueJob) list"
    by (auto simp: list_all_iff)
  have b: "list_all (\<lambda>i. i \<notin> set (map fst ys)) (map fst xs)
        \<longleftrightarrow> (\<forall>k. map_of xs k \<noteq> None \<longrightarrow> map_of ys k = None)"
    for xs ys :: "(string \<times> ('a, 'b) QueueJob) list"
    by (auto simp: list_all_iff map_of_eq_None_iff image_iff)
  show ?thesis
    unfolding wf_queue_def using a b by blast
qed



lemma set_pendingJobs:
  "set (pendingJobs q) = {j. status j = Pending \<and> j \<in> snd ` set (jobs q)}"
  by (auto simp: pendingJobs_def)

lemma pendingJobs_map_of:
  assumes "distinct (map fst (jobs q))"
  shows "j \<in> set (pendingJobs q) \<longleftrightarrow> status j = Pending \<and> (\<exists>k. map_of (jobs q) k = Some j)"
  using assms by (force simp: set_pendingJobs image_iff)

text \<open>The job \<open>processNext\<close> chooses, and the job as it is marked.\<close>

lemma select_None:
  assumes "pendingJobs q = [] \<or> q_concurrency (queue_options q) \<le> int (length (processing q))"
  shows "processNext_select now q = (None, q)"
  using assms by (auto simp: processNext_select_def)

lemma select_Some:
  assumes "pendingJobs q \<noteq> []" and "int (length (processing q)) < q_concurrency (queue_options q)"
  shows "processNext_select now q =
           (Some ((hd (pendingJobs q))\<lparr>status := Processing, processedAt := Some now,
                                        attempts := attempts (hd (pendingJobs q)) + 1\<rparr>),
            q\<lparr>jobs := AList.map_entry (job_id (hd (pendingJobs q)))
                        (\<lambda>_. (hd (pendingJobs q))\<lparr>status := Processing, processedAt := Some now,
                                        attempts := attempts (hd (pendingJobs q)) + 1\<rparr>) (jobs q),
              processing := List.insert (job_id (hd (pendingJobs q))) (processing q)\<rparr>)"
  using assms by (cases "pendingJobs q") (simp_all add: processNext_select_def Let_def)

lemma select_cases:
  obtains (idle) "processNext_select now q = (None, q)"
        | (picked) "pendingJobs q \<noteq> []" "int (length (processing q)) < q_concurrency (queue_options q)"
  using select_None [of q now] by fastforce


lemma hd_pending_mem: "pendingJobs q \<noteq> [] \<Longrightarrow> hd (pendingJobs q) \<in> set (pendingJobs q)"
  by simp


lemma map_fst_map_entry: "map fst (AList.map_entry k f xs) = map fst xs"
  by (induction xs) simp_all

lemma wf_hd_pending:
  assumes "wf_queue q" and "pendingJobs q \<noteq> []"
  shows "map_of (jobs q) (job_id (hd (pendingJobs q))) = Some (hd (pendingJobs q))"
    and "status (hd (pendingJobs q)) = Pending"
proof -
  have d: "distinct (map fst (jobs q))" using assms(1) by (simp add: wf_queue_iff)
  have "hd (pendingJobs q) \<in> set (pendingJobs q)" using assms(2) by simp
  then obtain k where k: "map_of (jobs q) k = Some (hd (pendingJobs q))"
    and p: "status (hd (pendingJobs q)) = Pending"
    using pendingJobs_map_of [OF d] by blast
  then have "job_id (hd (pendingJobs q)) = k" using assms(1) by (simp add: wf_queue_iff)
  then show "map_of (jobs q) (job_id (hd (pendingJobs q))) = Some (hd (pendingJobs q))"
    using k by simp
  show "status (hd (pendingJobs q)) = Pending" by (rule p)
qed

lemma processNext_idle:
  assumes "pendingJobs q = [] \<or> q_concurrency (queue_options q) \<le> int (length (processing q))"
  shows "processNext clock handler (q, w) = (q, w)"
  using select_None [OF assms] by (simp add: processNext_def)

lemma processNext_picked:
  assumes "pendingJobs q \<noteq> []" and "int (length (processing q)) < q_concurrency (queue_options q)"
    and "job1 = (hd (pendingJobs q))\<lparr>status := Processing, processedAt := Some (clock w),
                                       attempts := attempts (hd (pendingJobs q)) + 1\<rparr>"
  shows "processNext clock handler (q, w) =
           (processNext_settle (clock (snd (handler job1 w))) job1 (fst (handler job1 w))
              (q\<lparr>jobs := AList.map_entry (job_id (hd (pendingJobs q))) (\<lambda>_. job1) (jobs q),
                 processing := List.insert (job_id (hd (pendingJobs q))) (processing q)\<rparr>),
            snd (handler job1 w))"
  using select_Some [OF assms(1,2), of "clock w"] assms(3)
  by (simp add: processNext_def split: prod.splits)

text \<open>The three outcomes of a call that picked a job, on a well-formed queue with no job
  in processing.\<close>

lemma step_completed:
  assumes "wf_queue q" and "processing q = []" and "1 \<le> q_concurrency (queue_options q)"
    and "pendingJobs q \<noteq> []"
    and "job1 = (hd (pendingJobs q))\<lparr>status := Processing, processedAt := Some (clock w),
                                       attempts := attempts (hd (pendingJobs q)) + 1\<rparr>"
    and "fst (handler job1 w) = Inr res"
    and "q' = fst (processNext clock handler (q, w))"
  shows "map_of (jobs q') = (map_of (jobs q))(job_id job1 \<mapsto>
            job1\<lparr>status := Completed, completedAt := Some (clock (snd (handler job1 w))),
                  job_result := Some res\<rparr>)"
    and "map fst (jobs q') = map fst (jobs q)"
    and "deadLetterQueue q' = deadLetterQueue q"
    and "processing q' = []" and "queue_options q' = queue_options q"
proof -
  have c: "int (length (processing q)) < q_concurrency (queue_options q)"
    using assms(2,3) by simp
  note m = wf_hd_pending(1) [OF assms(1,4)]
  have id: "job_id job1 = job_id (hd (pendingJobs q))" using assms(5) by simp
  have q': "q' = processNext_settle (clock (snd (handler job1 w))) job1 (Inr res)
              (q\<lparr>jobs := AList.map_entry (job_id job1) (\<lambda>_. job1) (jobs q),
                 processing := List.insert (job_id job1) (processing q)\<rparr>)"
    using processNext_picked [where clock = clock and w = w and handler = handler, OF assms(4) c assms(5)]
      assms(6,7) id by simp
  show "map_of (jobs q') = (map_of (jobs q))(job_id job1 \<mapsto>
            job1\<lparr>status := Completed, completedAt := Some (clock (snd (handler job1 w))),
                  job_result := Some res\<rparr>)"
    using m id by (simp add: q' processNext_settle_def Let_def map_of_map_entry)
  show "map fst (jobs q') = map fst (jobs q)"
    by (simp add: q' processNext_settle_def Let_def map_fst_map_entry)
  show "deadLetterQueue q' = deadLetterQueue q" "processing q' = []"
       "queue_options q' = queue_options q"
    using assms(2) by (simp_all add: q' processNext_settle_def Let_def)
qed

lemma wf_select:
  assumes "wf_queue q"
  shows "wf_queue (snd (processNext_select now q))"
proof (cases rule: select_cases [of now q])
  case idle
  then show ?thesis using assms by simp
next
  case picked
  show ?thesis
    using assms
    by (simp add: select_Some [OF picked] wf_queue_iff map_of_map_entry distinct_map_entry
          split: option.splits if_splits)
qed

lemma wf_settle:
  assumes "wf_queue q"
  shows "wf_queue (processNext_settle now job outcome q)"
proof (cases outcome)
  case (Inr res)
  then show ?thesis
    using assms
    by (simp add: processNext_settle_def Let_def wf_queue_iff map_of_map_entry distinct_map_entry
          split: option.splits if_splits)
next
  case (Inl msg)
  show ?thesis
  proof (cases "maxAttempts job \<le> attempts job")
    case True
    then show ?thesis
      using assms Inl
      by (simp add: processNext_settle_def Let_def wf_queue_iff update_conv' delete_conv'
            distinct_update distinct_delete)
  next
    case False
    then show ?thesis
      using assms Inl
      by (simp add: processNext_settle_def Let_def wf_queue_iff map_of_map_entry distinct_map_entry
            split: option.splits if_splits)
  qed
qed

lemma wf_processNext:
  assumes "wf_queue q"
  shows "wf_queue (fst (processNext clock handler (q, w)))"
proof -
  have "wf_queue (snd (processNext_select (clock w) q))" using assms by (rule wf_select)
  then show ?thesis
    by (auto simp: processNext_def wf_settle split: prod.splits option.splits)
qed

lemma wf_retryDeadLetter:
  assumes "wf_queue q"
  shows "wf_queue (snd (retryDeadLetter i q))"
  using assms
  by (simp add: retryDeadLetter_def Let_def wf_queue_iff update_conv' delete_conv'
        distinct_update distinct_delete del: map_of_eq_Some_iff split: option.splits)

lemma wf_clearCompleted:
  assumes "wf_queue q"
  shows "wf_queue (snd (clearCompleted q))"
proof -
  let ?P = "\<lambda>(i, job :: ('a, 'b) QueueJob). status job \<noteq> Completed"
  have d: "distinct (map fst (filter ?P (jobs q)))"
    using assms by (simp add: wf_queue_def distinct_map_filter)
  have s: "set (filter ?P (jobs q)) \<subseteq> set (jobs q)" by auto
  show ?thesis
    using assms d s
    by (auto simp: clearCompleted_def wf_queue_def list_all_iff)
qed

lemma wf_add:
  assumes "wf_queue q" and "map_of (deadLetterQueue q) uuid = None"
  shows "wf_queue (snd (add uuid now ty dat prio maxAtt q))"
  using assms
  by (simp add: add_def Let_def wf_queue_iff update_conv' distinct_update del: map_of_eq_Some_iff)

lemma select_picked:
  assumes "processNext_select now q = (Some job1, q')"
  shows "pendingJobs q \<noteq> []"
    and "job1 = (hd (pendingJobs q))\<lparr>status := Processing, processedAt := Some now,
                                       attempts := attempts (hd (pendingJobs q)) + 1\<rparr>"
    and "q' = q\<lparr>jobs := AList.map_entry (job_id job1) (\<lambda>_. job1) (jobs q),
                 processing := List.insert (job_id job1) (processing q)\<rparr>"
proof -
  have p: "pendingJobs q \<noteq> [] \<and> int (length (processing q)) < q_concurrency (queue_options q)"
    using assms select_None [of q now] by fastforce
  then show "pendingJobs q \<noteq> []" by simp
  show j: "job1 = (hd (pendingJobs q))\<lparr>status := Processing, processedAt := Some now,
                                       attempts := attempts (hd (pendingJobs q)) + 1\<rparr>"
    using assms p select_Some [of q now] by simp
  show "q' = q\<lparr>jobs := AList.map_entry (job_id job1) (\<lambda>_. job1) (jobs q),
                 processing := List.insert (job_id job1) (processing q)\<rparr>"
    using assms p select_Some [of q now] j by simp
qed

lemma select_idle:
  assumes "processNext_select now q = (None, q')"
  shows "q' = q"
proof (cases rule: select_cases [of now q])
  case idle
  then show ?thesis using assms by simp
next
  case picked
  then show ?thesis using assms select_Some [OF picked, of now] by simp
qed

lemma select_map:
  assumes "wf_queue q" and "processNext_select now q = (Some job1, q1)"
  shows "map_of (jobs q1) = (map_of (jobs q))(job_id job1 \<mapsto> job1)"
    and "map fst (jobs q1) = map fst (jobs q)"
    and "deadLetterQueue q1 = deadLetterQueue q"
    and "\<exists>j0. map_of (jobs q) (job_id job1) = Some j0 \<and> status j0 = Pending"
proof -
  note p = select_picked [OF assms(2)]
  note m = wf_hd_pending [OF assms(1) p(1)]
  have id: "job_id job1 = job_id (hd (pendingJobs q))" by (simp add: p(2))
  show "map_of (jobs q1) = (map_of (jobs q))(job_id job1 \<mapsto> job1)"
    using m(1) id by (simp add: p(3) map_of_map_entry)
  show "map fst (jobs q1) = map fst (jobs q)" by (simp add: p(3) map_fst_map_entry)
  show "deadLetterQueue q1 = deadLetterQueue q" by (simp add: p(3))
  show "\<exists>j0. map_of (jobs q) (job_id job1) = Some j0 \<and> status j0 = Pending"
    using m id by simp
qed

lemma processNext_unfold:
  "fst (processNext clock handler (q, w)) =
     (case processNext_select (clock w) q of
        (None, q1) \<Rightarrow> q
      | (Some job1, q1) \<Rightarrow>
          processNext_settle (clock (snd (handler job1 w))) job1 (fst (handler job1 w)) q1)"
  by (auto simp: processNext_def split: prod.splits option.splits dest: select_idle)

text \<open>The values of a map after one entry was overwritten, set or deleted.\<close>

lemma set_map_entry_const:
  "set (AList.map_entry k (\<lambda>_. v) xs) \<subseteq> insert (k, v) (set xs)"
  by (induction xs) auto

lemma set_update_subset: "set (AList.update k v xs) \<subseteq> insert (k, v) (set xs)"
  by (induction xs) auto

lemma set_delete_subset: "set (AList.delete k xs) \<subseteq> set xs"
  by (induction xs) auto

lemma settle_no_dead:
  assumes "\<forall>j\<in>set (map snd (jobs q)). status j \<noteq> Dead"
  shows "\<forall>j\<in>set (map snd (jobs (processNext_settle now job outcome q))). status j \<noteq> Dead"
proof -
  have e: "\<forall>j\<in>set (map snd (AList.map_entry k (\<lambda>_. v) (jobs q))). status j \<noteq> Dead"
    if "status v \<noteq> Dead" for k v
    using assms that set_map_entry_const [of k v "jobs q"] by fastforce
  have d: "\<forall>j\<in>set (map snd (AList.delete k (jobs q))). status j \<noteq> Dead" for k
    using assms set_delete_subset [of k "jobs q"] by fastforce
  show ?thesis
  proof (cases outcome)
    case (Inr res)
    then show ?thesis
      using e [of "job\<lparr>status := Completed, completedAt := Some now, job_result := Some res\<rparr>" "job_id job"]
      by (simp add: processNext_settle_def Let_def del: set_map)
  next
    case (Inl msg)
    then show ?thesis
      using e [of "job\<lparr>job_error := Some msg, status := Pending\<rparr>" "job_id job"] d [of "job_id job"]
      by (simp add: processNext_settle_def Let_def del: set_map)
  qed
qed

lemma settle_dead_letters:
  "\<forall>j\<in>set (map snd (deadLetterQueue (processNext_settle now job outcome q))).
      j \<in> set (map snd (deadLetterQueue q)) \<or> status j = Dead"
proof -
  have u: "\<forall>j\<in>set (map snd (AList.update k v (deadLetterQueue q))).
             j \<in> set (map snd (deadLetterQueue q)) \<or> status j = Dead"
    if "status v = Dead" for k v
    using that set_update_subset [of k v "deadLetterQueue q"] by fastforce
  show ?thesis
  proof (cases outcome)
    case (Inr res)
    then show ?thesis by (simp add: processNext_settle_def Let_def del: set_map)
  next
    case (Inl msg)
    then show ?thesis
      using u [of "job\<lparr>job_error := Some msg, status := Dead\<rparr>" "job_id job"]
      by (simp add: processNext_settle_def Let_def del: set_map)
  qed
qed

lemma settle_keys:
  assumes "job_id job \<in> set (map fst (jobs q))"
  shows "set (map fst (jobs (processNext_settle now job outcome q)))
           \<union> set (map fst (deadLetterQueue (processNext_settle now job outcome q)))
         = set (map fst (jobs q)) \<union> set (map fst (deadLetterQueue q))"
  using assms
  by (cases outcome)
     (auto simp: processNext_settle_def Let_def map_fst_map_entry delete_keys update_keys
        simp del: set_map)

lemma settle_map:
  "map_of (jobs (processNext_settle now job outcome q)) k =
     (if k = job_id job then
        (case outcome of
           Inr res \<Rightarrow> map_option (\<lambda>_. job\<lparr>status := Completed, completedAt := Some now,
                                           job_result := Some res\<rparr>) (map_of (jobs q) k)
         | Inl msg \<Rightarrow>
             if maxAttempts job \<le> attempts job then None
             else map_option (\<lambda>_. job\<lparr>job_error := Some msg, status := Pending\<rparr>) (map_of (jobs q) k))
      else map_of (jobs q) k)"
  by (cases outcome)
     (auto simp: processNext_settle_def Let_def map_of_map_entry delete_conv'
        split: option.splits)

lemma settle_dead_map:
  assumes "maxAttempts job \<le> attempts job"
  shows "map_of (deadLetterQueue (processNext_settle now job (Inl msg) q)) (job_id job)
           = Some (job\<lparr>job_error := Some msg, status := Dead\<rparr>)"
  using assms by (simp add: processNext_settle_def Let_def update_conv')

lemma step_failed:
  assumes "wf_queue q" and "processing q = []" and "1 \<le> q_concurrency (queue_options q)"
    and "pendingJobs q \<noteq> []"
    and "job1 = (hd (pendingJobs q))\<lparr>status := Processing, processedAt := Some (clock w),
                                       attempts := attempts (hd (pendingJobs q)) + 1\<rparr>"
    and "fst (handler job1 w) = Inl msg"
    and "q' = fst (processNext clock handler (q, w))"
  shows "maxAttempts job1 \<le> attempts job1 \<Longrightarrow>
           map_of (jobs q') = (map_of (jobs q))(job_id job1 := None)"
    and "maxAttempts job1 \<le> attempts job1 \<Longrightarrow>
           map_of (deadLetterQueue q')
             = (map_of (deadLetterQueue q))(job_id job1 \<mapsto> job1\<lparr>job_error := Some msg, status := Dead\<rparr>)"
    and "\<not> maxAttempts job1 \<le> attempts job1 \<Longrightarrow>
           map_of (jobs q')
             = (map_of (jobs q))(job_id job1 \<mapsto> job1\<lparr>job_error := Some msg, status := Pending\<rparr>)"
    and "\<not> maxAttempts job1 \<le> attempts job1 \<Longrightarrow> deadLetterQueue q' = deadLetterQueue q"
    and "processing q' = []" and "queue_options q' = queue_options q"
proof -
  have c: "int (length (processing q)) < q_concurrency (queue_options q)"
    using assms(2,3) by simp
  note m = wf_hd_pending(1) [OF assms(1,4)]
  have id: "job_id job1 = job_id (hd (pendingJobs q))" using assms(5) by simp
  have q': "q' = processNext_settle (clock (snd (handler job1 w))) job1 (Inl msg)
              (q\<lparr>jobs := AList.map_entry (job_id job1) (\<lambda>_. job1) (jobs q),
                 processing := List.insert (job_id job1) (processing q)\<rparr>)"
    using processNext_picked [where clock = clock and w = w and handler = handler, OF assms(4) c assms(5)]
      assms(6,7) id by simp
  show "maxAttempts job1 \<le> attempts job1 \<Longrightarrow>
           map_of (jobs q') = (map_of (jobs q))(job_id job1 := None)"
    by (simp add: q' processNext_settle_def Let_def map_of_map_entry delete_conv')
  show "maxAttempts job1 \<le> attempts job1 \<Longrightarrow>
           map_of (deadLetterQueue q')
             = (map_of (deadLetterQueue q))(job_id job1 \<mapsto> job1\<lparr>job_error := Some msg, status := Dead\<rparr>)"
    by (simp add: q' processNext_settle_def Let_def update_conv')
  show "\<not> maxAttempts job1 \<le> attempts job1 \<Longrightarrow>
           map_of (jobs q')
             = (map_of (jobs q))(job_id job1 \<mapsto> job1\<lparr>job_error := Some msg, status := Pending\<rparr>)"
    using m id by (simp add: q' processNext_settle_def Let_def map_of_map_entry)
  show "\<not> maxAttempts job1 \<le> attempts job1 \<Longrightarrow> deadLetterQueue q' = deadLetterQueue q"
    by (simp add: q' processNext_settle_def Let_def)
  show "processing q' = []" "queue_options q' = queue_options q"
    using assms(2) by (simp_all add: q' processNext_settle_def Let_def)
qed

lemma step_idle:
  assumes "pendingJobs q = []"
  shows "processNext clock handler (q, w) = (q, w)"
  using assms by (simp add: processNext_idle)

text \<open>The pending jobs after a map has changed at one key.\<close>

lemma pending_after_update:
  assumes "distinct (map fst (jobs q))" and "distinct (map fst (jobs q'))"
    and "map_of (jobs q') = (map_of (jobs q))(k := v)"
    and "p \<in> set (pendingJobs q')"
  shows "v = Some p \<or> p \<in> set (pendingJobs q)"
proof -
  from assms(4) obtain k' where k': "status p = Pending" "map_of (jobs q') k' = Some p"
    using pendingJobs_map_of [OF assms(2)] by blast
  show ?thesis
  proof (cases "k' = k")
    case True
    then show ?thesis using k'(2) assms(3) by simp
  next
    case False
    then have "map_of (jobs q) k' = Some p" using k'(2) assms(3) by simp
    then have "p \<in> set (pendingJobs q)" using k'(1) pendingJobs_map_of [OF assms(1)] by blast
    then show ?thesis by simp
  qed
qed

lemma logged_simps:
  "fst (logged handler job (w, log)) = fst (handler job w)"
  "snd (logged handler job (w, log)) = (snd (handler job w), log @ [job])"
  by (simp_all add: logged_def split: prod.splits)



text \<open>One call of \<open>processNext\<close> with a logging handler, on a well-formed queue with nothing
  in processing.\<close>

lemma step_frame:
  assumes "wf_queue q" and "processing q = []" and "1 \<le> q_concurrency (queue_options q)"
    and step: "processNext (\<lambda>s. clock (fst s)) (logged handler) (q, (w, log)) = (q', (w', log'))"
  shows "wf_queue q'" and "processing q' = []" and "queue_options q' = queue_options q"
    and "pendingJobs q = [] \<Longrightarrow> q' = q \<and> log' = log"
    and "pendingJobs q \<noteq> [] \<Longrightarrow>
           log' = log @ [(hd (pendingJobs q))\<lparr>status := Processing, processedAt := Some (clock w),
                                               attempts := attempts (hd (pendingJobs q)) + 1\<rparr>]"
proof -
  let ?clock = "\<lambda>s :: 'c \<times> ('a, 'b) QueueJob list. clock (fst s)"
  have q'eq: "q' = fst (processNext ?clock (logged handler) (q, (w, log)))" using step by simp
  show "wf_queue q'" unfolding q'eq using assms(1) by (rule wf_processNext)
  show idle: "pendingJobs q = [] \<Longrightarrow> q' = q \<and> log' = log"
    using step by (simp add: step_idle)
  define job1 where "job1 = (hd (pendingJobs q))\<lparr>status := Processing, processedAt := Some (?clock (w, log)),
                                 attempts := attempts (hd (pendingJobs q)) + 1\<rparr>"
  have c: "int (length (processing q)) < q_concurrency (queue_options q)" using assms(2,3) by simp
  show "pendingJobs q \<noteq> [] \<Longrightarrow>
           log' = log @ [(hd (pendingJobs q))\<lparr>status := Processing, processedAt := Some (clock w),
                                               attempts := attempts (hd (pendingJobs q)) + 1\<rparr>]"
  proof -
    assume ne: "pendingJobs q \<noteq> []"
    have "snd (processNext ?clock (logged handler) (q, (w, log))) = snd (logged handler job1 (w, log))"
      using processNext_picked [where clock = ?clock and w = "(w, log)" and handler = "logged handler",
          OF ne c job1_def] by simp
    then show ?thesis using step by (simp add: logged_simps job1_def)
  qed
  show "processing q' = []" "queue_options q' = queue_options q"
  proof -
    have "processing q' = [] \<and> queue_options q' = queue_options q"
    proof (cases "pendingJobs q = []")
      case True
      then show ?thesis using idle assms(2) by simp
    next
      case False
      show ?thesis
      proof (cases "fst (logged handler job1 (w, log))")
        case (Inl msg)
        from step_failed(5,6) [where clock = ?clock and handler = "logged handler" and w = "(w, log)",
            OF assms(1,2,3) False job1_def Inl q'eq]
        show ?thesis by simp
      next
        case (Inr res)
        from step_completed(4,5) [where clock = ?clock and handler = "logged handler" and w = "(w, log)",
            OF assms(1,2,3) False job1_def Inr q'eq]
        show ?thesis by simp
      qed
    qed
    then show "processing q' = []" "queue_options q' = queue_options q" by simp_all
  qed
qed

text \<open>A call that picks a job leaves the entries of every other id as they are.\<close>

lemma step_other_key:
  assumes "wf_queue q" and "processing q = []" and "1 \<le> q_concurrency (queue_options q)"
    and step: "processNext (\<lambda>s. clock (fst s)) (logged handler) (q, (w, log)) = (q', (w', log'))"
    and "pendingJobs q \<noteq> []" and "job_id (hd (pendingJobs q)) \<noteq> i"
  shows "map_of (jobs q') i = map_of (jobs q) i"
    and "map_of (deadLetterQueue q') i = map_of (deadLetterQueue q) i"
proof -
  let ?clock = "\<lambda>s :: 'c \<times> ('a, 'b) QueueJob list. clock (fst s)"
  have q'eq: "q' = fst (processNext ?clock (logged handler) (q, (w, log)))" using step by simp
  define job1 where "job1 = (hd (pendingJobs q))\<lparr>status := Processing, processedAt := Some (?clock (w, log)),
                                 attempts := attempts (hd (pendingJobs q)) + 1\<rparr>"
  have id: "job_id job1 \<noteq> i" using assms(6) by (simp add: job1_def)
  have "map_of (jobs q') i = map_of (jobs q) i
      \<and> map_of (deadLetterQueue q') i = map_of (deadLetterQueue q) i"
  proof (cases "fst (logged handler job1 (w, log))")
    case (Inl msg)
    note f = step_failed [where clock = ?clock and handler = "logged handler" and w = "(w, log)",
            OF assms(1,2,3,5) job1_def Inl q'eq]
    show ?thesis
    proof (cases "maxAttempts job1 \<le> attempts job1")
      case True
      then show ?thesis using f(1,2) id by simp
    next
      case False
      then show ?thesis using f(3,4) id by simp
    qed
  next
    case (Inr res)
    from step_completed(1,3) [where clock = ?clock and handler = "logged handler" and w = "(w, log)",
            OF assms(1,2,3,5) job1_def Inr q'eq]
    show ?thesis using id by simp
  qed
  then show "map_of (jobs q') i = map_of (jobs q) i"
    and "map_of (deadLetterQueue q') i = map_of (deadLetterQueue q) i"
    by simp_all
qed

lemma invocations_snoc:
  "invocations i (log @ [job]) = (if job_id job = i then Suc (invocations i log) else invocations i log)"
  by (simp add: invocations_def)

lemma job_pending_atD:
  assumes "job_pending_at i k m q"
  obtains job where "map_of (jobs q) i = Some job" "status job = Pending" "attempts job = k"
    "maxAttempts job = m" "map_of (deadLetterQueue q) i = None"
  using assms by (auto simp: job_pending_at_def split: option.splits)

lemma job_pending_in_pendingJobs:
  assumes "wf_queue q" and "map_of (jobs q) i = Some job" and "status job = Pending"
  shows "job \<in> set (pendingJobs q)" and "pendingJobs q \<noteq> []"
proof -
  have d: "distinct (map fst (jobs q))" using assms(1) by (simp add: wf_queue_iff)
  show "job \<in> set (pendingJobs q)" using assms(2,3) pendingJobs_map_of [OF d] by blast
  then show "pendingJobs q \<noteq> []" by (metis list.set(1) empty_iff)
qed

text \<open>A call on a queue in which job \<open>i\<close> is pending after \<open>k\<close> attempts out of \<open>m\<close>, with
  a handler that fails on that job.\<close>

lemma job_step:
  assumes b: "wf_queue q" "processing q = []" "1 \<le> q_concurrency (queue_options q)"
    and fails: "\<forall>job w. job_id job = i \<longrightarrow> isl (fst (handler job w))"
    and p: "job_pending_at i k m q" and k: "0 \<le> k" "k < m"
    and inv: "invocations i log = nat k"
    and step: "processNext (\<lambda>s. clock (fst s)) (logged handler) (q, (w, log)) = (q', (w', log'))"
  shows "(job_id (hd (pendingJobs q)) \<noteq> i \<and> job_pending_at i k m q' \<and> invocations i log' = nat k)
       \<or> (job_id (hd (pendingJobs q)) = i \<and> k + 1 < m \<and> job_pending_at i (k + 1) m q'
            \<and> invocations i log' = nat (k + 1))
       \<or> (job_id (hd (pendingJobs q)) = i \<and> k + 1 = m \<and> job_dead_at i m q'
            \<and> invocations i log' = nat m)"
proof -
  let ?clock = "\<lambda>s :: 'c \<times> ('a, 'b) QueueJob list. clock (fst s)"
  let ?j0 = "hd (pendingJobs q)"
  from p obtain job where job: "map_of (jobs q) i = Some job" "status job = Pending"
    "attempts job = k" "maxAttempts job = m" "map_of (deadLetterQueue q) i = None"
    by (rule job_pending_atD)
  have ne: "pendingJobs q \<noteq> []" using job_pending_in_pendingJobs(2) [OF b(1) job(1,2)] .
  define job1 where "job1 = ?j0\<lparr>status := Processing, processedAt := Some (?clock (w, log)),
                                 attempts := attempts ?j0 + 1\<rparr>"
  have log': "log' = log @ [job1]"
    using step_frame(5) [OF b step ne] by (simp add: job1_def)
  have q'eq: "q' = fst (processNext ?clock (logged handler) (q, (w, log)))" using step by simp
  show ?thesis
  proof (cases "job_id ?j0 = i")
    case False
    from step_other_key [OF b step ne False]
    have "job_pending_at i k m q'" using p by (simp add: job_pending_at_def)
    moreover have "invocations i log' = nat k"
      using inv False by (simp add: log' invocations_snoc job1_def)
    ultimately show ?thesis using False by simp
  next
    case True
    have j0: "?j0 = job" using wf_hd_pending(1) [OF b(1) ne] job(1) True by simp
    have j1: "job_id job1 = i" "attempts job1 = k + 1" "maxAttempts job1 = m"
      using True j0 job by (simp_all add: job1_def)
    obtain msg where msg: "fst (logged handler job1 (w, log)) = Inl msg"
      using fails j1(1) by (metis logged_simps(1) sum.collapse(1))
    note f = step_failed [where clock = ?clock and handler = "logged handler" and w = "(w, log)",
            OF b ne job1_def msg q'eq]
    have cnt: "invocations i log' = nat (k + 1)"
      using inv k(1) j1(1) by (simp add: log' invocations_snoc nat_add_distrib)
    show ?thesis
    proof (cases "maxAttempts job1 \<le> attempts job1")
      case True
      then have "k + 1 = m" using j1 k by simp
      moreover have "job_dead_at i m q'"
        using f(1,2) [OF True] j1 True \<open>k + 1 = m\<close> by (simp add: job_dead_at_def)
      ultimately show ?thesis using cnt \<open>job_id ?j0 = i\<close> by simp
    next
      case False
      then have "k + 1 < m" using j1 by simp
      moreover have "job_pending_at i (k + 1) m q'"
        using f(3,4) [OF False] j1 job(5) by (simp add: job_pending_at_def)
      ultimately show ?thesis using cnt \<open>job_id ?j0 = i\<close> by simp
    qed
  qed
qed

lemma dead_step:
  assumes b: "wf_queue q" "processing q = []" "1 \<le> q_concurrency (queue_options q)"
    and d: "job_dead_at i m q"
    and step: "processNext (\<lambda>s. clock (fst s)) (logged handler) (q, (w, log)) = (q', (w', log'))"
  shows "job_dead_at i m q'" and "invocations i log' = invocations i log"
proof -
  have gone: "map_of (jobs q) i = None" using d by (simp add: job_dead_at_def)
  have "job_dead_at i m q' \<and> invocations i log' = invocations i log"
  proof (cases "pendingJobs q = []")
    case True
    then show ?thesis using step_frame(4) [OF b step] d by simp
  next
    case False
    have other: "job_id (hd (pendingJobs q)) \<noteq> i"
      using wf_hd_pending(1) [OF b(1) False] gone by auto
    from step_other_key [OF b step False other]
    have "job_dead_at i m q'" using d by (simp add: job_dead_at_def)
    moreover have "invocations i log' = invocations i log"
      using step_frame(5) [OF b step False] other by (simp add: invocations_snoc)
    ultimately show ?thesis by simp
  qed
  then show "job_dead_at i m q'" and "invocations i log' = invocations i log" by simp_all
qed

text \<open>The state of job \<open>i\<close> and the number of its invocations, kept by every run.\<close>

lemma job_run:
  assumes b: "wf_queue q" "processing q = []" "1 \<le> q_concurrency (queue_options q)"
    and fails: "\<forall>job w. job_id job = i \<longrightarrow> isl (fst (handler job w))"
    and s: "(\<exists>k. 0 \<le> k \<and> k < m \<and> job_pending_at i k m q \<and> invocations i log = nat k)
            \<or> (job_dead_at i m q \<and> invocations i log = nat m)"
    and run: "processNext_times n (\<lambda>s. clock (fst s)) (logged handler) (q, (w, log)) = (q', (w', log'))"
  shows "wf_queue q' \<and> processing q' = []
       \<and> ((\<exists>k. 0 \<le> k \<and> k < m \<and> job_pending_at i k m q' \<and> invocations i log' = nat k)
            \<or> (job_dead_at i m q' \<and> invocations i log' = nat m))"
  using b s run
proof (induction n arbitrary: q w log)
  case 0
  then show ?case by simp
next
  case (Suc n)
  obtain q1 w1 log1 where st: "processNext (\<lambda>s. clock (fst s)) (logged handler) (q, (w, log)) = (q1, (w1, log1))"
    by (metis prod.collapse)
  note fr = step_frame(1,2,3) [OF Suc.prems(1,2,3) st]
  have c1: "1 \<le> q_concurrency (queue_options q1)" using fr(3) Suc.prems(3) by simp
  have s1: "(\<exists>k. 0 \<le> k \<and> k < m \<and> job_pending_at i k m q1 \<and> invocations i log1 = nat k)
            \<or> (job_dead_at i m q1 \<and> invocations i log1 = nat m)"
    using Suc.prems(4)
  proof
    assume "\<exists>k. 0 \<le> k \<and> k < m \<and> job_pending_at i k m q \<and> invocations i log = nat k"
    then obtain k where k: "0 \<le> k" "k < m" "job_pending_at i k m q" "invocations i log = nat k"
      by blast
    from job_step [OF Suc.prems(1,2,3) fails k(3,1,2,4) st]
    show ?thesis using k(1,2) by (metis add_increasing2 zero_less_one_class.zero_le_one)
  next
    assume "job_dead_at i m q \<and> invocations i log = nat m"
    then show ?thesis using dead_step [OF Suc.prems(1,2,3) _ st, of i m] by simp
  qed
  have "processNext_times n (\<lambda>s. clock (fst s)) (logged handler) (q1, (w1, log1)) = (q', (w', log'))"
    using Suc.prems(5) st by simp
  from Suc.IH [OF fr(1,2) c1 s1 this] show ?case .
qed

text \<open>A call adds no id to those of the pending jobs.\<close>

lemma step_pending_ids:
  assumes b: "wf_queue q" "processing q = []" "1 \<le> q_concurrency (queue_options q)"
    and step: "processNext (\<lambda>s. clock (fst s)) (logged handler) (q, (w, log)) = (q', (w', log'))"
    and p: "p \<in> set (pendingJobs q')"
  shows "\<exists>p0\<in>set (pendingJobs q). job_id p0 = job_id p"
proof (cases "pendingJobs q = []")
  case True
  then show ?thesis using step_frame(4) [OF b step] p by simp
next
  case False
  let ?clock = "\<lambda>s :: 'c \<times> ('a, 'b) QueueJob list. clock (fst s)"
  let ?j0 = "hd (pendingJobs q)"
  have q'eq: "q' = fst (processNext ?clock (logged handler) (q, (w, log)))" using step by simp
  define job1 where "job1 = ?j0\<lparr>status := Processing, processedAt := Some (?clock (w, log)),
                                 attempts := attempts ?j0 + 1\<rparr>"
  have id: "job_id job1 = job_id ?j0" by (simp add: job1_def)
  have d: "distinct (map fst (jobs q))" "distinct (map fst (jobs q'))"
    using b(1) step_frame(1) [OF b step] by (simp_all add: wf_queue_iff)
  have "\<exists>v. map_of (jobs q') = (map_of (jobs q))(job_id job1 := v)
            \<and> (v = None \<or> (\<exists>j. v = Some j \<and> job_id j = job_id job1))"
  proof (cases "fst (logged handler job1 (w, log))")
    case (Inl msg)
    note f = step_failed [where clock = ?clock and handler = "logged handler" and w = "(w, log)",
            OF b False job1_def Inl q'eq]
    show ?thesis
    proof (cases "maxAttempts job1 \<le> attempts job1")
      case True
      then show ?thesis using f(1) by blast
    next
      case False
      from f(3) [OF False] show ?thesis by (intro exI [of _ "Some (job1\<lparr>job_error := Some msg, status := Pending\<rparr>)"]) simp
    qed
  next
    case (Inr res)
    from step_completed(1) [where clock = ?clock and handler = "logged handler" and w = "(w, log)",
            OF b False job1_def Inr q'eq]
    show ?thesis
      by (intro exI [of _ "Some (job1\<lparr>status := Completed,
              completedAt := Some (?clock (snd (logged handler job1 (w, log)))),
              job_result := Some res\<rparr>)"]) simp
  qed
  then obtain v where v: "map_of (jobs q') = (map_of (jobs q))(job_id job1 := v)"
    "v = None \<or> (\<exists>j. v = Some j \<and> job_id j = job_id job1)" by blast
  from pending_after_update [OF d v(1) p]
  show ?thesis
  proof
    assume "v = Some p"
    then have "job_id p = job_id ?j0" using v(2) id by auto
    then show ?thesis using hd_pending_mem [OF False] by metis
  next
    assume "p \<in> set (pendingJobs q)"
    then show ?thesis by blast
  qed
qed

text \<open>When job \<open>i\<close> is the only pending job, each call is an attempt on it.\<close>

lemma only_run:
  assumes b: "wf_queue q" "processing q = []" "1 \<le> q_concurrency (queue_options q)"
    and fails: "\<forall>job w. job_id job = i \<longrightarrow> isl (fst (handler job w))"
    and only: "\<forall>p\<in>set (pendingJobs q). job_id p = i"
    and p: "job_pending_at i k m q" and k: "0 \<le> k" "k < m"
    and inv: "invocations i log = nat k"
    and d: "d = nat (m - k)"
  shows "invocations i (snd (snd (processNext_times d (\<lambda>s. clock (fst s)) (logged handler) (q, (w, log)))))
           = nat m"
  using b only p k inv d
proof (induction d arbitrary: q w log k)
  case 0
  then show ?case by simp
next
  case (Suc d)
  obtain q1 w1 log1 where st: "processNext (\<lambda>s. clock (fst s)) (logged handler) (q, (w, log)) = (q1, (w1, log1))"
    by (metis prod.collapse)
  note fr = step_frame(1,2,3) [OF Suc.prems(1,2,3) st]
  have c1: "1 \<le> q_concurrency (queue_options q1)" using fr(3) Suc.prems(3) by simp
  from Suc.prems(5) obtain job where job: "map_of (jobs q) i = Some job" "status job = Pending"
    by (rule job_pending_atD)
  have ne: "pendingJobs q \<noteq> []" using job_pending_in_pendingJobs(2) [OF Suc.prems(1) job] .
  have hd_i: "job_id (hd (pendingJobs q)) = i"
    using Suc.prems(4) hd_pending_mem [OF ne] by blast
  have only1: "\<forall>p\<in>set (pendingJobs q1). job_id p = i"
    using step_pending_ids [OF Suc.prems(1,2,3) st] Suc.prems(4) by metis
  from job_step [OF Suc.prems(1,2,3) fails Suc.prems(5,6,7,8) st] hd_i
  consider (again) "k + 1 < m" "job_pending_at i (k + 1) m q1" "invocations i log1 = nat (k + 1)"
    | (dead) "k + 1 = m" "invocations i log1 = nat m"
    by auto
  then show ?case
  proof cases
    case again
    have "d = nat (m - (k + 1))" using Suc.prems(9) by simp
    from Suc.IH [OF fr(1,2) c1 only1 again(2) _ again(1,3) this, of w1] Suc.prems(6)
    show ?thesis using st by simp
  next
    case dead
    then have "d = 0" using Suc.prems(9) by simp
    then show ?thesis using st dead(2) by simp
  qed
qed

lemma retry_dead:
  assumes "wf_queue q" and "job_dead_at i m q"
  shows "fst (retryDeadLetter i q)"
    and "job_pending_at i 0 m (snd (retryDeadLetter i q))"
    and "\<exists>job\<in>set (pendingJobs (snd (retryDeadLetter i q))). job_id job = i"
proof -
  from assms(2) obtain job where job: "map_of (deadLetterQueue q) i = Some job" "maxAttempts job = m"
    by (auto simp: job_dead_at_def split: option.splits)
  have id: "job_id job = i" using assms(1) job(1) by (simp add: wf_queue_iff del: map_of_eq_Some_iff)
  let ?job1 = "job\<lparr>status := Pending, attempts := 0, job_error := None\<rparr>"
  have q': "snd (retryDeadLetter i q)
              = q\<lparr>jobs := AList.update i ?job1 (jobs q),
                   deadLetterQueue := AList.delete i (deadLetterQueue q)\<rparr>"
    using job(1) by (simp add: retryDeadLetter_def Let_def)
  show "fst (retryDeadLetter i q)" using job(1) by (simp add: retryDeadLetter_def Let_def)
  show "job_pending_at i 0 m (snd (retryDeadLetter i q))"
    using job(2) by (simp add: q' job_pending_at_def update_conv' delete_conv')
  have wf': "wf_queue (snd (retryDeadLetter i q))" using assms(1) by (rule wf_retryDeadLetter)
  have "map_of (jobs (snd (retryDeadLetter i q))) i = Some ?job1"
    by (simp add: q' update_conv')
  from job_pending_in_pendingJobs(1) [OF wf' this]
  show "\<exists>job\<in>set (pendingJobs (snd (retryDeadLetter i q))). job_id job = i"
    using id by (intro bexI [of _ ?job1]) simp_all
qed

lemma log_clock_eq: "(\<lambda>s. ms_clock (fst s)) = log_clock"
  by (simp add: log_clock_def fun_eq_iff)

lemma single_queue_facts:
  "wf_queue single_queue" "processing single_queue = []"
  "q_concurrency (queue_options single_queue) = 5"
  "job_pending_at ''job-1'' 0 3 single_queue"
  "map job_id (pendingJobs single_queue) = [''job-1'']"
  by code_simp+


lemma only_single: "\<forall>p\<in>set (pendingJobs single_queue). job_id p = ''job-1''"
  by code_simp

lemma f_single: "\<forall>job w. job_id job = ''job-1'' \<longrightarrow> isl (fst (failing_job_handler job w))"
  by (simp add: failing_job_handler_def)


lemma single_queue_no_dead: "\<forall>j\<in>set (map snd (jobs single_queue)). status j \<noteq> Dead" by code_simp
lemma twice_failed_wf: "wf_queue twice_failed_queue" by code_simp
lemma twice_failed_no_dead: "\<forall>j\<in>set (map snd (jobs twice_failed_queue)). status j \<noteq> Dead" by code_simp
lemma single_select: "fst (processNext_select (ms_clock 0) single_queue) = Some first_attempt" by code_simp
lemma twice_failed_select: "fst (processNext_select (ms_clock 2) twice_failed_queue) = Some third_attempt"
  by code_simp

text \<open>
  Claim C5. Take a well-formed queue with nothing in processing and a concurrency of at
  least one, in which job \<open>i\<close> is pending with no attempt made and \<open>maxAttempts = 3\<close>, and
  a handler that fails whenever it is invoked on that job. Then through any number of
  calls of \<open>processNext\<close>, whatever other jobs there are, the handler is invoked on the job
  at most three times; while it has been invoked fewer than three times the job is pending
  in the active map with that many attempts; and once it has been invoked three times the
  job is out of the active map and in the dead-letter queue with status dead, and
  \<open>retryDeadLetter\<close> on its id returns true and puts it back into the active map, pending,
  with the attempt counter at 0 and out of the dead-letter queue, where \<open>processNext\<close>
  finds it among the pending jobs. When the job is the only pending one, three calls of
  \<open>processNext\<close> are three invocations.
\<close>

theorem failing_job_dies_after_three_attempts:
  assumes "wf_queue q" and "processing q = []" and "1 \<le> q_concurrency (queue_options q)"
    and "job_pending_at i 0 3 q"
    and "\<forall>job w. job_id job = i \<longrightarrow> isl (fst (handler job w))"
  shows "(\<forall>n q' w' log.
            processNext_times n (\<lambda>s. clock (fst s)) (logged handler) (q, (w, [])) = (q', (w', log)) \<longrightarrow>
              invocations i log \<le> 3
              \<and> (invocations i log < 3 \<longrightarrow> job_pending_at i (int (invocations i log)) 3 q')
              \<and> (invocations i log = 3 \<longrightarrow>
                    job_dead_at i 3 q' \<and> fst (retryDeadLetter i q')
                    \<and> job_pending_at i 0 3 (snd (retryDeadLetter i q'))
                    \<and> (\<exists>job\<in>set (pendingJobs (snd (retryDeadLetter i q'))). job_id job = i)))
       \<and> ((\<forall>p\<in>set (pendingJobs q). job_id p = i) \<longrightarrow>
             invocations i (snd (snd (processNext_times 3 (\<lambda>s. clock (fst s)) (logged handler) (q, (w, [])))))
               = 3)"
proof (intro conjI allI impI)
  fix n q' w' log
  assume run: "processNext_times n (\<lambda>s. clock (fst s)) (logged handler) (q, (w, [])) = (q', (w', log))"
  have s0: "(\<exists>k. 0 \<le> k \<and> k < 3 \<and> job_pending_at i k 3 q \<and> invocations i [] = nat k)
            \<or> (job_dead_at i 3 q \<and> invocations i [] = nat 3)"
    using assms(4) by (intro disjI1 exI [of _ 0]) (simp add: invocations_def)
  from job_run [OF assms(1,2,3,5) s0 run]
  have r: "wf_queue q'"
    "(\<exists>k. 0 \<le> k \<and> k < 3 \<and> job_pending_at i k 3 q' \<and> invocations i log = nat k)
       \<or> (job_dead_at i 3 q' \<and> invocations i log = nat 3)"
    by simp_all
  show "invocations i log \<le> 3" using r(2) by auto
  { assume "invocations i log < 3"
    then show "job_pending_at i (int (invocations i log)) 3 q'" using r(2) by auto }
  { assume "invocations i log = 3"
    then have d: "job_dead_at i 3 q'" using r(2) by auto
    then show "job_dead_at i 3 q'" .
    show "fst (retryDeadLetter i q')" using retry_dead(1) [OF r(1) d] .
    show "job_pending_at i 0 3 (snd (retryDeadLetter i q'))" using retry_dead(2) [OF r(1) d] .
    show "\<exists>job\<in>set (pendingJobs (snd (retryDeadLetter i q'))). job_id job = i"
      using retry_dead(3) [OF r(1) d] . }
next
  assume only: "\<forall>p\<in>set (pendingJobs q). job_id p = i"
  have "invocations i (snd (snd (processNext_times (nat (3 - 0)) (\<lambda>s. clock (fst s)) (logged handler) (q, (w, [])))))
          = nat 3"
    by (rule only_run [OF assms(1,2,3,5) only assms(4)]) (simp_all add: invocations_def)
  then show "invocations i (snd (snd (processNext_times 3 (\<lambda>s. clock (fst s)) (logged handler) (q, (w, [])))))
               = 3"
    by (simp add: numeral_3_eq_3)
qed

theorem failing_job_dies_after_three_attempts_witness:
  "invocations ''job-1''
     (snd (snd (processNext_times 3 log_clock (logged failing_job_handler) (single_queue, (0, []))))) = 3
   \<and> job_dead_at ''job-1'' 3
       (fst (processNext_times 3 log_clock (logged failing_job_handler) (single_queue, (0, []))))
   \<and> job_pending_at ''job-1'' 0 3
       (snd (retryDeadLetter ''job-1''
          (fst (processNext_times 3 log_clock (logged failing_job_handler) (single_queue, (0, []))))))
   \<and> invocations ''job-1''
       (snd (snd (processNext_times 5 log_clock (logged failing_job_handler) (single_queue, (0, []))))) \<le> 3"
proof -
  define run3 where "run3 = processNext_times 3 log_clock (logged failing_job_handler) (single_queue, (0, []))"
  define run5 where "run5 = processNext_times 5 log_clock (logged failing_job_handler) (single_queue, (0, []))"
  have c: "1 \<le> q_concurrency (queue_options single_queue)" by (simp add: single_queue_facts)
  note t = failing_job_dies_after_three_attempts [where clock = ms_clock and w = 0,
      OF single_queue_facts(1,2) c single_queue_facts(4) f_single, unfolded log_clock_eq]
  have 1: "invocations ''job-1'' (snd (snd run3)) = 3"
    unfolding run3_def by (rule t [THEN conjunct2, THEN mp, OF only_single])
  have r3: "processNext_times 3 log_clock (logged failing_job_handler) (single_queue, (0, []))
              = (fst run3, (fst (snd run3), snd (snd run3)))"
    by (simp add: run3_def)
  have r5: "processNext_times 5 log_clock (logged failing_job_handler) (single_queue, (0, []))
              = (fst run5, (fst (snd run5), snd (snd run5)))"
    by (simp add: run5_def)
  note a3 = t [THEN conjunct1, THEN spec, THEN spec, THEN spec, THEN spec, THEN mp, OF r3]
  note a5 = t [THEN conjunct1, THEN spec, THEN spec, THEN spec, THEN spec, THEN mp, OF r5]
  have d: "job_dead_at ''job-1'' 3 (fst run3)
         \<and> fst (retryDeadLetter ''job-1'' (fst run3))
         \<and> job_pending_at ''job-1'' 0 3 (snd (retryDeadLetter ''job-1'' (fst run3)))
         \<and> (\<exists>job\<in>set (pendingJobs (snd (retryDeadLetter ''job-1'' (fst run3)))). job_id job = ''job-1'')"
    by (rule a3 [THEN conjunct2, THEN conjunct2, THEN mp, OF 1])
  have 4: "invocations ''job-1'' (snd (snd run5)) \<le> 3"
    by (rule a5 [THEN conjunct1])
  show ?thesis
    using 1 d 4 unfolding run3_def run5_def by blast
qed



text \<open>
  Claim C9, as stated, fails for completed jobs: \<open>processNext\<close> leaves a job whose handler
  succeeded in the active map, with status completed, where \<open>getStats\<close> counts it.
\<close>

theorem completed_job_stays_in_active_set:
  "map_option status (map_of (jobs (fst (processNext ms_clock ok_job_handler (single_queue, 0)))) ''job-1'')
     = Some Completed
   \<and> map fst (jobs (fst (processNext ms_clock ok_job_handler (single_queue, 0)))) = [''job-1'']
   \<and> stat_completed (getStats (fst (processNext ms_clock ok_job_handler (single_queue, 0)))) = 1"
  by code_simp

text \<open>
  Claim C9, amended. On a well-formed queue with no dead job in the active map, a call of
  \<open>processNext\<close> leaves the queue well-formed, so that no id is in both maps, and leaves
  no dead job in the active map; what it adds to the dead-letter queue is dead; the ids of
  the two maps together are the same as before, so that no job is dropped; a job that was
  completed stays in the active map as it was; the job picked is, when its handler
  succeeds, in the active map with status completed, and, when its handler fails on the
  last attempt, out of the active map and in the dead-letter queue with status dead.
  Completed jobs leave the active map by \<open>clearCompleted\<close>, which removes exactly them
  and returns their number.
\<close>

theorem worker_step_keeps_jobs:
  assumes "wf_queue q" and "\<forall>j\<in>set (map snd (jobs q)). status j \<noteq> Dead"
  shows "wf_queue (fst (processNext clock handler (q, w)))
       \<and> (\<forall>j\<in>set (map snd (jobs (fst (processNext clock handler (q, w))))). status j \<noteq> Dead)
       \<and> (\<forall>j\<in>set (map snd (deadLetterQueue (fst (processNext clock handler (q, w))))).
             j \<in> set (map snd (deadLetterQueue q)) \<or> status j = Dead)
       \<and> set (map fst (jobs (fst (processNext clock handler (q, w)))))
           \<union> set (map fst (deadLetterQueue (fst (processNext clock handler (q, w)))))
         = set (map fst (jobs q)) \<union> set (map fst (deadLetterQueue q))
       \<and> (\<forall>k j. map_of (jobs q) k = Some j \<and> status j = Completed \<longrightarrow>
             map_of (jobs (fst (processNext clock handler (q, w)))) k = Some j)
       \<and> (\<forall>job1 q1 res.
             processNext_select (clock w) q = (Some job1, q1) \<and> fst (handler job1 w) = Inr res \<longrightarrow>
               map_option status (map_of (jobs (fst (processNext clock handler (q, w)))) (job_id job1))
                 = Some Completed)
       \<and> (\<forall>job1 q1 msg.
             processNext_select (clock w) q = (Some job1, q1) \<and> fst (handler job1 w) = Inl msg
             \<and> maxAttempts job1 \<le> attempts job1 \<longrightarrow>
               map_of (jobs (fst (processNext clock handler (q, w)))) (job_id job1) = None
               \<and> map_option status
                    (map_of (deadLetterQueue (fst (processNext clock handler (q, w)))) (job_id job1))
                   = Some Dead)
       \<and> jobs (snd (clearCompleted q)) = filter (\<lambda>(k, j). status j \<noteq> Completed) (jobs q)
       \<and> deadLetterQueue (snd (clearCompleted q)) = deadLetterQueue q
       \<and> fst (clearCompleted q) = length (filter (\<lambda>(k, j). status j = Completed) (jobs q))"
proof -
  let ?q' = "fst (processNext clock handler (q, w))"
  have wf': "wf_queue ?q'" using assms(1) by (rule wf_processNext)
  have cc: "jobs (snd (clearCompleted q)) = filter (\<lambda>(k, j). status j \<noteq> Completed) (jobs q)
       \<and> deadLetterQueue (snd (clearCompleted q)) = deadLetterQueue q
       \<and> fst (clearCompleted q) = length (filter (\<lambda>(k, j). status j = Completed) (jobs q))"
    by (simp add: clearCompleted_def)
  obtain sel q1 where s: "processNext_select (clock w) q = (sel, q1)" by (metis prod.collapse)
  show ?thesis
  proof (cases sel)
    case None
    then have q': "?q' = q" using s by (simp add: processNext_unfold)
    have n: "processNext_select (clock w) q = (None, q1)" using s None by simp
    have e': "\<forall>job1 q1 res.
             processNext_select (clock w) q = (Some job1, q1) \<and> fst (handler job1 w) = Inr res \<longrightarrow>
               map_option status (map_of (jobs ?q') (job_id job1)) = Some Completed"
      by (simp add: n)
    have f': "\<forall>job1 q1 msg.
             processNext_select (clock w) q = (Some job1, q1) \<and> fst (handler job1 w) = Inl msg
             \<and> maxAttempts job1 \<le> attempts job1 \<longrightarrow>
               map_of (jobs ?q') (job_id job1) = None
               \<and> map_option status (map_of (deadLetterQueue ?q') (job_id job1)) = Some Dead"
      by (simp add: n)
    have a: "\<forall>j\<in>set (map snd (jobs ?q')). status j \<noteq> Dead" using assms(2) by (simp only: q')
    have b: "\<forall>j\<in>set (map snd (deadLetterQueue ?q')).
             j \<in> set (map snd (deadLetterQueue q)) \<or> status j = Dead" by (simp only: q') blast
    have c: "set (map fst (jobs ?q')) \<union> set (map fst (deadLetterQueue ?q'))
         = set (map fst (jobs q)) \<union> set (map fst (deadLetterQueue q))" by (simp only: q')
    have d: "\<forall>k j. map_of (jobs q) k = Some j \<and> status j = Completed \<longrightarrow> map_of (jobs ?q') k = Some j"
      by (simp only: q') blast
    show ?thesis
      by (intro conjI) (rule wf' a b c d e' f' cc [THEN conjunct1]
            cc [THEN conjunct2, THEN conjunct1] cc [THEN conjunct2, THEN conjunct2])+
  next
    case (Some job1)
    let ?now = "clock (snd (handler job1 w))"
    let ?out = "fst (handler job1 w)"
    have sel: "processNext_select (clock w) q = (Some job1, q1)" using s Some by simp
    have q': "?q' = processNext_settle ?now job1 ?out q1"
      using sel by (simp add: processNext_unfold)
    note sm = select_map [OF assms(1) sel]
    note sp = select_picked [OF sel]
    have in1: "job_id job1 \<in> set (map fst (jobs q1))"
      using sm(1) by (metis fun_upd_same map_of_eq_None_iff option.distinct(1) set_map)
    have nd1: "\<forall>j\<in>set (map snd (jobs q1)). status j \<noteq> Dead"
    proof -
      have "status job1 \<noteq> Dead" by (simp add: sp(2))
      then show ?thesis
        using assms(2) set_map_entry_const [of "job_id job1" job1 "jobs q"]
        by (fastforce simp: sp(3))
    qed
    have a: "\<forall>j\<in>set (map snd (jobs ?q')). status j \<noteq> Dead"
      unfolding q' using nd1 by (rule settle_no_dead)
    have b: "\<forall>j\<in>set (map snd (deadLetterQueue ?q')).
             j \<in> set (map snd (deadLetterQueue q)) \<or> status j = Dead"
      unfolding q' using settle_dead_letters [of ?now job1 ?out q1] by (simp only: sm(3))
    have c: "set (map fst (jobs ?q')) \<union> set (map fst (deadLetterQueue ?q'))
         = set (map fst (jobs q)) \<union> set (map fst (deadLetterQueue q))"
      unfolding q' using settle_keys [OF in1, of ?now ?out] by (simp only: sm(2,3))
    have d: "\<forall>k j. map_of (jobs q) k = Some j \<and> status j = Completed \<longrightarrow> map_of (jobs ?q') k = Some j"
    proof (intro allI impI)
      fix k j assume kj: "map_of (jobs q) k = Some j \<and> status j = Completed"
      then have "k \<noteq> job_id job1" using sm(4) by auto
      then show "map_of (jobs ?q') k = Some j"
        using kj by (simp add: q' settle_map sm(1))
    qed
    have e: "map_option status (map_of (jobs ?q') (job_id job1)) = Some Completed"
      if "fst (handler job1 w) = Inr res" for res
      using that by (simp add: q' settle_map sm(1))
    have f: "map_of (jobs ?q') (job_id job1) = None
           \<and> map_option status (map_of (deadLetterQueue ?q') (job_id job1)) = Some Dead"
      if "fst (handler job1 w) = Inl msg" "maxAttempts job1 \<le> attempts job1" for msg
      using that by (simp add: q' settle_map settle_dead_map)
    have e': "\<forall>job1 q1 res.
             processNext_select (clock w) q = (Some job1, q1) \<and> fst (handler job1 w) = Inr res \<longrightarrow>
               map_option status (map_of (jobs ?q') (job_id job1)) = Some Completed"
      using e by (auto simp: sel)
    have f': "\<forall>job1 q1 msg.
             processNext_select (clock w) q = (Some job1, q1) \<and> fst (handler job1 w) = Inl msg
             \<and> maxAttempts job1 \<le> attempts job1 \<longrightarrow>
               map_of (jobs ?q') (job_id job1) = None
               \<and> map_option status (map_of (deadLetterQueue ?q') (job_id job1)) = Some Dead"
      using f by (auto simp: sel)
    show ?thesis
      by (intro conjI) (rule wf' a b c d e' f' cc [THEN conjunct1]
            cc [THEN conjunct2, THEN conjunct1] cc [THEN conjunct2, THEN conjunct2])+
  qed
qed

theorem worker_step_keeps_jobs_witness:
  "map_option status (map_of (jobs (fst (processNext ms_clock ok_job_handler (single_queue, 0)))) ''job-1'')
     = Some Completed
   \<and> map_of (jobs (fst (processNext ms_clock failing_job_handler (twice_failed_queue, 2)))) ''job-1'' = None
   \<and> map_option status
        (map_of (deadLetterQueue (fst (processNext ms_clock failing_job_handler (twice_failed_queue, 2))))
           ''job-1'')
       = Some Dead
   \<and> wf_queue (fst (processNext ms_clock failing_job_handler (twice_failed_queue, 2)))"
proof -
  note t1 = worker_step_keeps_jobs [OF single_queue_facts(1) single_queue_no_dead,
      where clock = ms_clock and handler = ok_job_handler and w = 0]
  note t2 = worker_step_keeps_jobs [OF twice_failed_wf twice_failed_no_dead,
      where clock = ms_clock and handler = failing_job_handler and w = 2]
  have s1: "processNext_select (ms_clock 0) single_queue
              = (Some first_attempt, snd (processNext_select (ms_clock 0) single_queue))
            \<and> fst (ok_job_handler first_attempt 0) = Inr ()"
    using single_select by (simp add: ok_job_handler_def prod_eq_iff)
  have s2: "processNext_select (ms_clock 2) twice_failed_queue
              = (Some third_attempt, snd (processNext_select (ms_clock 2) twice_failed_queue))
            \<and> fst (failing_job_handler third_attempt 2) = Inl ''send failed''
            \<and> maxAttempts third_attempt \<le> attempts third_attempt"
    using twice_failed_select by (simp add: failing_job_handler_def prod_eq_iff third_attempt_def)
  have id: "job_id first_attempt = ''job-1''" "job_id third_attempt = ''job-1''"
    by (simp_all add: first_attempt_def third_attempt_def)
  have 1: "map_option status (map_of (jobs (fst (processNext ms_clock ok_job_handler (single_queue, 0)))) ''job-1'')
     = Some Completed"
    using t1 [THEN conjunct2, THEN conjunct2, THEN conjunct2, THEN conjunct2, THEN conjunct2,
              THEN conjunct1, THEN spec, THEN spec, THEN spec, THEN mp, OF s1]
    by (simp only: id)
  have 2: "map_of (jobs (fst (processNext ms_clock failing_job_handler (twice_failed_queue, 2)))) ''job-1'' = None
   \<and> map_option status
        (map_of (deadLetterQueue (fst (processNext ms_clock failing_job_handler (twice_failed_queue, 2))))
           ''job-1'')
       = Some Dead"
    using t2 [THEN conjunct2, THEN conjunct2, THEN conjunct2, THEN conjunct2, THEN conjunct2,
              THEN conjunct2, THEN conjunct1, THEN spec, THEN spec, THEN spec, THEN mp, OF s2]
    by (simp only: id)
  have 3: "wf_queue (fst (processNext ms_clock failing_job_handler (twice_failed_queue, 2)))"
    by (rule t2 [THEN conjunct1])
  from 1 2 3 show ?thesis by blast
qed

end
